theory Spec2Isabelle
  imports Main "HOL-Library.Word"
begin

unbundle bit_operations_syntax

section \<open>Python values and exceptions\<close>

text \<open>
  The three scripts are Python. Their integers are unbounded (\<open>int\<close>), a \<open>bytes\<close> or
  \<open>bytearray\<close> object is a list of 8-bit words, and every exception a script can raise on
  the paths modelled here is a constructor of \<open>error\<close>; a computation that may raise
  returns \<open>error + 'a\<close> with \<open>Inl\<close> for the exception.
\<close>

type_synonym byte = "8 word"
type_synonym bytes = "byte list"

datatype error =
    StructError   \<comment> \<open>\<open>struct.error\<close>: a value does not fit the format code\<close>
  | IndexError    \<comment> \<open>pixel access outside the image\<close>
  | OSError       \<comment> \<open>\<open>read_bytes\<close> on a path that is not a readable file\<close>
  | ZlibError     \<comment> \<open>\<open>zlib.error\<close>: bad compression level\<close>

text \<open>Sequencing of computations that may raise.\<close>

definition bindE :: "error + 'a \<Rightarrow> ('a \<Rightarrow> error + 'b) \<Rightarrow> error + 'b" where
  "bindE m f = (case m of Inl e \<Rightarrow> Inl e | Inr v \<Rightarrow> f v)"

text \<open>A \<open>for\<close> loop over a list whose body threads a state and may raise.\<close>

fun for_each :: "('a \<Rightarrow> 's \<Rightarrow> error + 's) \<Rightarrow> 'a list \<Rightarrow> 's \<Rightarrow> error + 's" where
  "for_each body [] s = Inr s"
| "for_each body (x # xs) s = bindE (body x s) (for_each body xs)"

subsection \<open>\<open>struct.pack\<close> and \<open>struct.unpack\<close> with big-endian \<open>H\<close> fields\<close>

text \<open>The two bytes of a 16-bit value, high byte first.\<close>

definition be16 :: "int \<Rightarrow> bytes" where
  "be16 v = [word_of_int (v div 256), word_of_int (v mod 256)]"

text \<open>
  \<open>struct.pack(">H...", v1, ...)\<close>: every argument must lie in \<open>0..65535\<close>, otherwise
  \<open>struct.error\<close> is raised and nothing is produced.
\<close>

definition struct_pack_H :: "int list \<Rightarrow> error + bytes" where
  "struct_pack_H vs =
     (if list_all (\<lambda>v. 0 \<le> v \<and> v \<le> 65535) vs then Inr (concat (map be16 vs))
      else Inl StructError)"

text \<open>\<open>struct.unpack(">H", bs)[0]\<close>: the buffer must hold exactly two bytes.\<close>

definition struct_unpack_H :: "bytes \<Rightarrow> error + int" where
  "struct_unpack_H bs =
     (case bs of [hi, lo] \<Rightarrow> Inr (uint hi * 256 + uint lo) | _ \<Rightarrow> Inl StructError)"

section \<open>PixelCodec\<close>

text \<open>\<open>make_spans.py\<close>, \<open>LIME_KEY\<close> and \<open>rgb888_to_rgb565_be\<close> (mask-based).\<close>

definition LIME_KEY :: "int \<times> int \<times> int" where
  "LIME_KEY = (0x8B, 0xE3, 0x08)"

definition rgb565_mask :: "int \<Rightarrow> int \<Rightarrow> int \<Rightarrow> int" where
  "rgb565_mask r g b = (push_bit 8 (r AND 0xF8) OR push_bit 3 (g AND 0xFC)) OR drop_bit 3 b"

definition rgb888_to_rgb565_be :: "int \<Rightarrow> int \<Rightarrow> int \<Rightarrow> error + bytes" where
  "rgb888_to_rgb565_be r g b = struct_pack_H [rgb565_mask r g b]"

text \<open>
  The bytes \<open>rgb888_to_rgb565_be\<close> returns for a pixel with 8-bit channels (it never
  raises on such channels; the empty list stands for the exception).
\<close>

definition codec_bytes :: "8 word \<Rightarrow> 8 word \<Rightarrow> 8 word \<Rightarrow> bytes" where
  "codec_bytes r g b =
     (case rgb888_to_rgb565_be (uint r) (uint g) (uint b) of Inr bs \<Rightarrow> bs | Inl e \<Rightarrow> [])"

definition pick_key_color :: "error + (bytes \<times> (int \<times> int \<times> int))" where
  "pick_key_color =
     (case LIME_KEY of (kr, kg, kb) \<Rightarrow>
        bindE (rgb888_to_rgb565_be kr kg kb) (\<lambda>key565_be. Inr (key565_be, LIME_KEY)))"

text \<open>\<open>image_converter.py\<close>, the per-pixel expression of \<open>to_rgb565_be_bytes\<close> (shift-based).\<close>

definition rgb565_shift :: "int \<Rightarrow> int \<Rightarrow> int \<Rightarrow> int" where
  "rgb565_shift r g b =
     (push_bit 11 (drop_bit 3 r) OR push_bit 5 (drop_bit 2 g)) OR drop_bit 3 b"

section \<open>Images\<close>

text \<open>
  An image as Pillow hands it to the scripts: its size and a pixel-access object. After
  \<open>convert("RGBA")\<close> every pixel is a tuple of four 8-bit channels, after
  \<open>convert("RGB")\<close> of three. Reading a pixel gives Python integers; reading outside
  the image raises \<open>IndexError\<close>.
\<close>

type_synonym rgba = "8 word \<times> 8 word \<times> 8 word \<times> 8 word"
type_synonym rgb = "8 word \<times> 8 word \<times> 8 word"

record 'p image =
  img_w :: nat
  img_h :: nat
  img_px :: "nat \<Rightarrow> nat \<Rightarrow> 'p"

definition pixels :: "rgba image \<Rightarrow> nat \<Rightarrow> nat \<Rightarrow> error + (int \<times> int \<times> int \<times> int)" where
  "pixels img x y =
     (if x < img_w img \<and> y < img_h img
      then (case img_px img x y of (r, g, b, a) \<Rightarrow> Inr (uint r, uint g, uint b, uint a))
      else Inl IndexError)"

definition px :: "rgb image \<Rightarrow> nat \<Rightarrow> nat \<Rightarrow> error + (int \<times> int \<times> int)" where
  "px img x y =
     (if x < img_w img \<and> y < img_h img
      then (case img_px img x y of (r, g, b) \<Rightarrow> Inr (uint r, uint g, uint b))
      else Inl IndexError)"

section \<open>FullFrameEncoder: \<open>make_spans.py\<close>, the \<open>full_raw\<close> loop of \<open>main\<close>\<close>

definition full_raw :: "rgba image \<Rightarrow> error + bytes" where
  "full_raw img =
     for_each (\<lambda>y. for_each (\<lambda>x acc.
         bindE (pixels img x y) (\<lambda>(r, g, b, a).
         bindE (rgb888_to_rgb565_be r g b) (\<lambda>bs. Inr (acc @ bs))))
       [0..<img_w img])
     [0..<img_h img] []"

section \<open>RawFrameCodec: \<open>image_converter.py\<close>, \<open>to_rgb565_be_bytes\<close>\<close>

text \<open>
  The argument is the image after \<open>convert("RGB")\<close>. The output buffer is allocated
  zero-filled at its final size and each pixel's two bytes are stored by the slice
  assignment \<open>out[i:i+2] = ...\<close>, whose bounds Python clamps to the buffer as
  \<open>take\<close> and \<open>drop\<close> do.
\<close>

definition to_rgb565_be_bytes :: "rgb image \<Rightarrow> error + bytes" where
  "to_rgb565_be_bytes img =
     (let w = img_w img; h = img_h img; out0 = replicate (w * h * 2) (0 :: byte) in
      bindE
        (for_each (\<lambda>y. for_each (\<lambda>x (out, i).
             bindE (px img x y) (\<lambda>(r, g, b).
             let v = rgb565_shift r g b in
             bindE (struct_pack_H [v]) (\<lambda>bs.
             Inr (take i out @ bs @ drop (i + 2) out, i + 2))))
           [0..<w])
         [0..<h] (out0, 0))
        (\<lambda>(out, i). Inr out))"

section \<open>KeyColorPolicy and SpriteRunLengthEncoder: \<open>make_spans.py\<close>, the \<open>rle\<close> loop\<close>

text \<open>The transparency test, written twice in the source (both \<open>while\<close> loops).\<close>

definition transparent :: "int \<times> int \<times> int \<Rightarrow> int \<times> int \<times> int \<times> int \<Rightarrow> bool" where
  "transparent key_rgb p = (case p of (r, g, b, a) \<Rightarrow> (r, g, b) = key_rgb \<or> a = 0)"

text \<open>The inner \<open>while x < w\<close>: advance \<open>x\<close> to the end of the run.\<close>

function scan_run :: "rgba image \<Rightarrow> int \<times> int \<times> int \<Rightarrow> nat \<Rightarrow> nat \<Rightarrow> error + nat" where
  "scan_run img key_rgb y x =
     (if x < img_w img then
        (case pixels img x y of
           Inl e \<Rightarrow> Inl e
         | Inr p \<Rightarrow> if transparent key_rgb p then Inr x else scan_run img key_rgb y (x + 1))
      else Inr x)"
  by pat_completeness auto
termination
  by (relation "measure (\<lambda>(img, key_rgb, y, x). img_w img - x)") auto

declare scan_run.simps [simp del]

lemma scan_run_ge: "scan_run img key_rgb y x = Inr x' \<Longrightarrow> x \<le> x'"
proof (induction img key_rgb y x arbitrary: x' rule: scan_run.induct)
  case (1 img key_rgb y x)
  show ?case
  proof (cases "x < img_w img")
    case False
    with "1.prems" show ?thesis
      by (simp add: scan_run.simps [of img key_rgb y x])
  next
    case True
    then obtain p where p: "pixels img x y = Inr p"
      using "1.prems" by (cases "pixels img x y") (simp_all add: scan_run.simps [of img key_rgb y x])
    show ?thesis
    proof (cases "transparent key_rgb p")
      case True
      with \<open>x < img_w img\<close> p "1.prems" show ?thesis
        by (simp add: scan_run.simps [of img key_rgb y x])
    next
      case False
      with \<open>x < img_w img\<close> p "1.prems" have "scan_run img key_rgb y (x + 1) = Inr x'"
        by (simp add: scan_run.simps [of img key_rgb y x])
      with "1.IH" [OF \<open>x < img_w img\<close> p False] show ?thesis
        by simp
    qed
  qed
qed

lemma scan_run_advances:
  assumes "x < img_w img" "pixels img x y = Inr p" "\<not> transparent key_rgb p"
    and "scan_run img key_rgb y x = Inr x'"
  shows "x < x'"
proof -
  from assms have "scan_run img key_rgb y (x + 1) = Inr x'"
    by (simp add: scan_run.simps [of img key_rgb y x])
  then have "x + 1 \<le> x'" by (rule scan_run_ge)
  then show ?thesis by simp
qed

text \<open>
  The outer \<open>while x < w\<close> of one row: skip transparent pixels, otherwise scan a run and
  append \<open>(start, x - start)\<close> to \<open>row_runs\<close>.
\<close>

function scan_row ::
  "rgba image \<Rightarrow> int \<times> int \<times> int \<Rightarrow> nat \<Rightarrow> nat \<Rightarrow> (nat \<times> nat) list \<Rightarrow> error + (nat \<times> nat) list" where
  "scan_row img key_rgb y x row_runs =
     (if x < img_w img then
        (case pixels img x y of
           Inl e \<Rightarrow> Inl e
         | Inr p \<Rightarrow>
             if transparent key_rgb p then scan_row img key_rgb y (x + 1) row_runs
             else (case scan_run img key_rgb y x of
                     Inl e \<Rightarrow> Inl e
                   | Inr x' \<Rightarrow> scan_row img key_rgb y x' (row_runs @ [(x, x' - x)])))
      else Inr row_runs)"
  by pat_completeness auto
termination
proof (relation "measure (\<lambda>(img, key_rgb, y, x, row_runs). img_w img - x)")
  show "wf (measure (\<lambda>(img, key_rgb, y, x, row_runs). img_w img - x))"
    by simp
next
  fix img :: "rgba image" and key_rgb :: "int \<times> int \<times> int" and y x :: nat
    and row_runs :: "(nat \<times> nat) list" and p
  assume "x < img_w img"
  then show "((img, key_rgb, y, x + 1, row_runs), (img, key_rgb, y, x, row_runs))
      \<in> measure (\<lambda>(img, key_rgb, y, x, row_runs). img_w img - x)"
    by simp
next
  fix img :: "rgba image" and key_rgb :: "int \<times> int \<times> int" and y x x' :: nat
    and row_runs :: "(nat \<times> nat) list" and p
  assume "x < img_w img" "pixels img x y = Inr p" "\<not> transparent key_rgb p"
    "scan_run img key_rgb y x = Inr x'"
  then have "x < x'" by (rule scan_run_advances)
  with \<open>x < img_w img\<close>
  show "((img, key_rgb, y, x', row_runs @ [(x, x' - x)]), (img, key_rgb, y, x, row_runs))
      \<in> measure (\<lambda>(img, key_rgb, y, x, row_runs). img_w img - x)"
    by simp
qed

declare scan_row.simps [simp del]

text \<open>Appending one run to \<open>rle\<close>: its header, then its pixels; the opaque count grows.\<close>

definition emit_run ::
  "rgba image \<Rightarrow> nat \<Rightarrow> nat \<times> nat \<Rightarrow> bytes \<times> nat \<Rightarrow> error + (bytes \<times> nat)" where
  "emit_run img y run st =
     (case run of (sx, ln) \<Rightarrow> case st of (rle, run_pixels_total) \<Rightarrow>
        bindE (struct_pack_H [int sx, int ln]) (\<lambda>hdr.
        bindE (for_each (\<lambda>x acc.
                  bindE (pixels img x y) (\<lambda>(r, g, b, a).
                  bindE (rgb888_to_rgb565_be r g b) (\<lambda>bs. Inr (acc @ bs))))
                [sx..<sx + ln] (rle @ hdr)) (\<lambda>rle'.
        Inr (rle', run_pixels_total + ln))))"

text \<open>The body of \<open>for y in range(h)\<close>.\<close>

definition encode_row ::
  "rgba image \<Rightarrow> int \<times> int \<times> int \<Rightarrow> nat \<Rightarrow> bytes \<times> nat \<Rightarrow> error + (bytes \<times> nat)" where
  "encode_row img key_rgb y st =
     (case st of (rle, run_pixels_total) \<Rightarrow>
        bindE (scan_row img key_rgb y 0 []) (\<lambda>row_runs.
        bindE (struct_pack_H [int (length row_runs)]) (\<lambda>cnt.
        for_each (emit_run img y) row_runs (rle @ cnt, run_pixels_total))))"

text \<open>
  The sprite buffer and the opaque-pixel count: the header
  \<open>struct.pack(">HHH", w, h, key565)\<close>, then every row.
\<close>

definition rle :: "rgba image \<Rightarrow> int \<Rightarrow> int \<times> int \<times> int \<Rightarrow> error + (bytes \<times> nat)" where
  "rle img key565 key_rgb =
     bindE (struct_pack_H [int (img_w img), int (img_h img), key565]) (\<lambda>hdr.
     for_each (encode_row img key_rgb) [0..<img_h img] (hdr, 0))"

text \<open>
  One iteration of \<open>for src in targets\<close> from the opened image on: the key colour, the
  dense buffer, then the sprite buffer. The result is \<open>(full_raw, rle, run_pixels_total)\<close>.
\<close>

definition convert_image :: "rgba image \<Rightarrow> error + (bytes \<times> bytes \<times> nat)" where
  "convert_image img =
     bindE pick_key_color (\<lambda>(key565_be, key_rgb).
     bindE (struct_unpack_H key565_be) (\<lambda>key565.
     bindE (full_raw img) (\<lambda>full.
     bindE (rle img key565 key_rgb) (\<lambda>(sprite, run_pixels_total).
     Inr (full, sprite, run_pixels_total)))))"

section \<open>CompressionStage: \<open>pack_assets.py\<close>\<close>

subsection \<open>File names\<close>

type_synonym path = string

text \<open>\<open>p.name\<close>: the last component of a path.\<close>

definition path_name :: "path \<Rightarrow> string" where
  "path_name p = rev (takeWhile (\<lambda>c. c \<noteq> CHR ''/'') (rev p))"

definition is_digit :: "char \<Rightarrow> bool" where
  "is_digit c = (c \<in> set ''0123456789'')"

definition lower :: "char \<Rightarrow> char" where
  "lower c = (let n = (of_char c :: nat) in if 65 \<le> n \<and> n \<le> 90 then char_of (n + 32) else c)"

text \<open>\<open>int(m.group(k))\<close> on a string of decimal digits.\<close>

definition int_of_digits :: "string \<Rightarrow> nat" where
  "int_of_digits ds = foldl (\<lambda>n c. 10 * n + (of_char c - 48)) 0 ds"

text \<open>
  \<open>RAW_RE = re.compile(r'_(\d+)x(\d+)_rgb565_be\.raw$', re.IGNORECASE)\<close>.
  The pattern is anchored at the end, so a match is determined from the right: the literal
  tail, then the second group, which must be the whole block of digits before the tail
  (the character before the group has to be \<open>x\<close>, not a digit), then \<open>x\<close>, then the
  first group, again the whole block of digits, then \<open>_\<close>. \<open>RAW_RE_at_end\<close> reads the
  reversed name in that order and returns the two groups; letters are compared ignoring
  case. Names are taken to be ASCII.
\<close>

fun strip_ci :: "string \<Rightarrow> string \<Rightarrow> string option" where
  "strip_ci [] s = Some s"
| "strip_ci (p # ps) [] = None"
| "strip_ci (p # ps) (c # cs) = (if lower c = p then strip_ci ps cs else None)"

definition RAW_RE_at_end :: "string \<Rightarrow> (string \<times> string) option" where
  "RAW_RE_at_end s =
     (case strip_ci (rev ''_rgb565_be.raw'') (rev s) of
        None \<Rightarrow> None
      | Some r1 \<Rightarrow>
          let g2 = takeWhile is_digit r1; r2 = dropWhile is_digit r1 in
          if g2 = [] then None
          else (case strip_ci ''x'' r2 of
                  None \<Rightarrow> None
                | Some r3 \<Rightarrow>
                    let g1 = takeWhile is_digit r3; r4 = dropWhile is_digit r3 in
                    if g1 = [] then None
                    else (case strip_ci ''_'' r4 of
                            None \<Rightarrow> None
                          | Some r5 \<Rightarrow> Some (rev g1, rev g2))))"

text \<open>
  \<open>RAW_RE.search\<close>: \<open>$\<close> matches at the end of the string and also just before a
  newline that ends it.
\<close>

definition RAW_RE_search :: "string \<Rightarrow> (string \<times> string) option" where
  "RAW_RE_search s =
     (case RAW_RE_at_end s of
        Some m \<Rightarrow> Some m
      | None \<Rightarrow> if s \<noteq> [] \<and> last s = CHR 0x0A then RAW_RE_at_end (butlast s) else None)"

definition size_from_name :: "path \<Rightarrow> (nat \<times> nat) option" where
  "size_from_name p =
     (case RAW_RE_search (path_name p) of
        None \<Rightarrow> None
      | Some (g1, g2) \<Rightarrow> Some (int_of_digits g1, int_of_digits g2))"

subsection \<open>The file system and the console\<close>

text \<open>
  What the script prints, and what it does to the file system, in order. The contents of
  the files are a map from paths to bytes.
\<close>

datatype msg =
    SkipName string                     \<comment> \<open>\<open>skip: ... (name must end with ...)\<close>\<close>
  | ErrorSize string nat nat nat nat    \<comment> \<open>\<open>ERROR: ...: size ... != ...\<close>\<close>
  | SkipExists string                   \<comment> \<open>\<open>skip: ... already exists\<close>\<close>
  | Ok string string nat nat            \<comment> \<open>\<open>ok: ... -> ...\<close>\<close>
  | Fail string error                   \<comment> \<open>\<open>fail: ...\<close>\<close>
  | LevelRange                          \<comment> \<open>\<open>compression level must be 0..9\<close>\<close>
  | NoFiles                             \<comment> \<open>\<open>no *.raw files found in this folder.\<close>\<close>
  | Done nat nat                        \<comment> \<open>\<open>done: .../... files processed.\<close>\<close>

datatype event = Print msg | Glob bool | ReadBytes path | Exists path | WriteBytes path

record world =
  files :: "path \<rightharpoonup> bytes"
  trace :: "event list"

definition emit :: "event \<Rightarrow> world \<Rightarrow> world" where
  "emit e wd = wd\<lparr>trace := trace wd @ [e]\<rparr>"

definition read_bytes :: "path \<Rightarrow> world \<Rightarrow> (error + bytes) \<times> world" where
  "read_bytes p wd =
     (case files wd p of
        None \<Rightarrow> (Inl OSError, emit (ReadBytes p) wd)
      | Some data \<Rightarrow> (Inr data, emit (ReadBytes p) wd))"

definition exists_file :: "path \<Rightarrow> world \<Rightarrow> bool \<times> world" where
  "exists_file p wd = (files wd p \<noteq> None, emit (Exists p) wd)"

definition write_bytes :: "path \<Rightarrow> bytes \<Rightarrow> world \<Rightarrow> world" where
  "write_bytes p data wd = emit (WriteBytes p) (wd\<lparr>files := (files wd)(p \<mapsto> data)\<rparr>)"

text \<open>
  \<open>zlib.compress(data, level=level)\<close>. The compressor is the library's; it is the parameter
  \<open>zc\<close>. The library accepts the levels \<open>-1..9\<close> and raises \<open>zlib.error\<close> otherwise.
\<close>

definition zlib_compress :: "(int \<Rightarrow> bytes \<Rightarrow> bytes) \<Rightarrow> bytes \<Rightarrow> int \<Rightarrow> error + bytes" where
  "zlib_compress zc data level =
     (if - 1 \<le> level \<and> level \<le> 9 then Inr (zc level data) else Inl ZlibError)"

subsection \<open>\<open>compress_one\<close> and \<open>main\<close>\<close>

text \<open>
  The name of the output, \<open>path.with_suffix(path.suffix + ".zlib")\<close>, is the path with
  \<open>.zlib\<close> appended: this point is reached only when the name ends in \<open>.raw\<close>.
\<close>

definition compress_one ::
  "(int \<Rightarrow> bytes \<Rightarrow> bytes) \<Rightarrow> path \<Rightarrow> int \<Rightarrow> bool \<Rightarrow> bool \<Rightarrow> world \<Rightarrow> (error + bool) \<times> world" where
  "compress_one zc p level force overwrite wd =
     (case size_from_name p of
        None \<Rightarrow> (Inr False, emit (Print (SkipName (path_name p))) wd)
      | Some (w, h) \<Rightarrow>
          let expected = w * h * 2 in
          (case read_bytes p wd of
             (Inl e, wd1) \<Rightarrow> (Inl e, wd1)
           | (Inr data, wd1) \<Rightarrow>
               if length data \<noteq> expected \<and> \<not> force
               then (Inr False,
                     emit (Print (ErrorSize (path_name p) (length data) expected w h)) wd1)
               else
                 let out = p @ ''.zlib'' in
                 (case exists_file out wd1 of (ex, wd2) \<Rightarrow>
                    if ex \<and> \<not> overwrite
                    then (Inr True, emit (Print (SkipExists (path_name out))) wd2)
                    else (case zlib_compress zc data level of
                            Inl e \<Rightarrow> (Inl e, wd2)
                          | Inr zdata \<Rightarrow>
                              (Inr True,
                               emit (Print (Ok (path_name p) (path_name out)
                                              (length data) (length zdata)))
                                 (write_bytes out zdata wd2))))))"

record args =
  level :: int
  force :: bool
  overwrite :: bool
  recursive :: bool

text \<open>The loop \<open>for f in files\<close> with its \<open>try\<close>/\<open>except\<close>; the state is \<open>ok\<close> and the world.\<close>

fun batch ::
  "(int \<Rightarrow> bytes \<Rightarrow> bytes) \<Rightarrow> args \<Rightarrow> path list \<Rightarrow> nat \<times> world \<Rightarrow> nat \<times> world" where
  "batch zc a [] st = st"
| "batch zc a (f # fs) st =
     (case st of (ok, wd) \<Rightarrow>
        (case compress_one zc f (level a) (force a) (overwrite a) wd of
           (Inr r, wd') \<Rightarrow> batch zc a fs (if r then ok + 1 else ok, wd')
         | (Inl e, wd') \<Rightarrow> batch zc a fs (ok, emit (Print (Fail (path_name f) e)) wd')))"

text \<open>
  \<open>main\<close> after argument parsing. \<open>found\<close> is what the directory listing
  \<open>sorted(base.glob("*.raw"))\<close> (or \<open>rglob\<close>) returns; the result is the exit status
  and the world.
\<close>

definition main :: "(int \<Rightarrow> bytes \<Rightarrow> bytes) \<Rightarrow> (bool \<Rightarrow> path list) \<Rightarrow> args \<Rightarrow> world \<Rightarrow> int \<times> world" where
  "main zc found a wd =
     (if level a < 0 \<or> level a > 9 then (2, emit (Print LevelRange) wd)
      else
        let fs = found (recursive a); wd1 = emit (Glob (recursive a)) wd in
        if fs = [] then (1, emit (Print NoFiles) wd1)
        else (case batch zc a fs (0, wd1) of (ok, wd2) \<Rightarrow>
                (if ok = length fs then 0 else 1, emit (Print (Done ok (length fs))) wd2)))"

section \<open>Notions used in the statements\<close>

text \<open>
  The pixel at column \<open>x\<close> of row \<open>y\<close> passes the transparency test of the scan
  (outside the image no pixel does). \<open>runs_inv\<close> is the invariant of the row scan when it
  stands at column \<open>x\<close>. \<open>image_of\<close> builds an image from its pixels in row-major order.
\<close>

definition transparent_at :: "rgba image \<Rightarrow> int \<times> int \<times> int \<Rightarrow> nat \<Rightarrow> nat \<Rightarrow> bool" where
  "transparent_at img key_rgb x y =
     (case pixels img x y of Inr p \<Rightarrow> transparent key_rgb p | Inl e \<Rightarrow> False)"

definition runs_inv ::
  "rgba image \<Rightarrow> int \<times> int \<times> int \<Rightarrow> nat \<Rightarrow> nat \<Rightarrow> (nat \<times> nat) list \<Rightarrow> bool" where
  "runs_inv img key_rgb y x row_runs =
     ((\<forall>(s, l) \<in> set row_runs.
          1 \<le> l \<and> s + l \<le> x \<and> (s + l < img_w img \<longrightarrow> transparent_at img key_rgb (s + l) y))
      \<and> sorted_wrt (\<lambda>a b. fst a + snd a < fst b) row_runs
      \<and> (\<forall>i < x. \<not> transparent_at img key_rgb i y
                   \<longleftrightarrow> (\<exists>(s, l) \<in> set row_runs. s \<le> i \<and> i < s + l)))"

definition image_of :: "nat \<Rightarrow> nat \<Rightarrow> 'p list \<Rightarrow> 'p image" where
  "image_of w h ps = \<lparr>img_w = w, img_h = h, img_px = (\<lambda>x y. ps ! (y * w + x))\<rparr>"

definition sample_row :: "rgba image" where
  "sample_row = image_of 5 1
     [(139, 227, 8, 255), (255, 0, 0, 255), (1, 227, 8, 255), (0, 255, 0, 0), (1, 1, 1, 1)]"

text \<open>
  The runs of row \<open>y\<close> (the scan never raises inside the image; the empty list stands for
  the exception), and the bytes the encoder appends for a run and for a row.
\<close>

definition row_runs_of :: "rgba image \<Rightarrow> int \<times> int \<times> int \<Rightarrow> nat \<Rightarrow> (nat \<times> nat) list" where
  "row_runs_of img key_rgb y =
     (case scan_row img key_rgb y 0 [] of Inr rs \<Rightarrow> rs | Inl e \<Rightarrow> [])"

definition run_bytes :: "rgba image \<Rightarrow> nat \<Rightarrow> nat \<times> nat \<Rightarrow> bytes" where
  "run_bytes img y run =
     (case run of (sx, ln) \<Rightarrow>
        be16 (int sx) @ be16 (int ln)
        @ concat (map (\<lambda>x. case img_px img x y of (r, g, b, a) \<Rightarrow> codec_bytes r g b)
                    [sx..<sx + ln]))"

definition row_bytes :: "rgba image \<Rightarrow> nat \<Rightarrow> (nat \<times> nat) list \<Rightarrow> bytes" where
  "row_bytes img y rs = be16 (int (length rs)) @ concat (map (run_bytes img y) rs)"

text \<open>Sample images: the 2x2 scenario of the specification, and an image too wide for the format.\<close>

definition scenario_2x2 :: "rgba image" where
  "scenario_2x2 = image_of 2 2
     [(139, 227, 8, 255), (255, 0, 0, 255), (139, 227, 8, 255), (0, 255, 0, 255)]"

definition wide_image :: "rgba image" where
  "wide_image = \<lparr>img_w = 65536, img_h = 1, img_px = (\<lambda>x y. (0x8B, 0xE3, 0x08, 0xFF))\<rparr>"

definition blank_image :: "rgba image" where
  "blank_image = \<lparr>img_w = 3, img_h = 2,
     img_px = (\<lambda>x y. if x = 1 then (1, 2, 3, 0) else (0x8B, 0xE3, 0x08, 0xFF))\<rparr>"

text \<open>
  The per-file diagnostics that leave \<open>ok\<close> unchanged, and a stand-in compressor and
  sample worlds for concrete runs.
\<close>

fun failure_msg :: "event \<Rightarrow> bool" where
  "failure_msg (Print (SkipName n)) = True"
| "failure_msg (Print (ErrorSize n got expected w h)) = True"
| "failure_msg (Print (Fail n e)) = True"
| "failure_msg e = False"

definition store_only :: "int \<Rightarrow> bytes \<Rightarrow> bytes" where
  "store_only lvl data = data"

definition sample_world :: world where
  "sample_world = \<lparr>files = [''foo_4x4_rgb565_be.raw'' \<mapsto> replicate 31 7,
                              ''foo_4x4_rgb565_be.raw.zlib'' \<mapsto> [9],
                              ''bar_1x1_rgb565_be.raw'' \<mapsto> [1, 2]],
                    trace = []\<rparr>"

definition sample_args :: args where
  "sample_args = \<lparr>level = 9, force = False, overwrite = False, recursive = False\<rparr>"

section \<open>Properties\<close>

subsection \<open>The pixel codec\<close>

lemma and_shifted_mask:
  "(r::int) AND push_bit k (mask m) = push_bit k (take_bit m (drop_bit k r))"
  by (rule bit_eqI) (auto simp add: bit_simps)

lemma take_bit_drop_bit_uint8:
  "k + m = 8 \<Longrightarrow> take_bit m (drop_bit k (uint (r::8 word))) = drop_bit k (uint r)"
  by (rule bit_eqI) (auto simp add: bit_simps dest: bit_imp_le_length)

lemma uint8_and_248: "uint (r::8 word) AND 248 = push_bit 3 (drop_bit 3 (uint r))"
proof -
  have "(248::int) = push_bit 3 (mask 5)" by (simp add: mask_eq_exp_minus_1)
  then show ?thesis by (simp only: and_shifted_mask take_bit_drop_bit_uint8)
qed

lemma uint8_and_252: "uint (g::8 word) AND 252 = push_bit 2 (drop_bit 2 (uint g))"
proof -
  have "(252::int) = push_bit 2 (mask 6)" by (simp add: mask_eq_exp_minus_1)
  then show ?thesis by (simp only: and_shifted_mask take_bit_drop_bit_uint8)
qed

lemma rgb565_mask_eq_shift:
  fixes r g b :: "8 word"
  shows "rgb565_mask (uint r) (uint g) (uint b) = rgb565_shift (uint r) (uint g) (uint b)"
  by (simp add: rgb565_mask_def rgb565_shift_def uint8_and_248 uint8_and_252 push_bit_push_bit
      del: push_bit_and)

lemma rgb565_shift_fields:
  fixes r g b :: "8 word"
  shows "drop_bit 11 (rgb565_shift (uint r) (uint g) (uint b)) = drop_bit 3 (uint r)"
    and "take_bit 6 (drop_bit 5 (rgb565_shift (uint r) (uint g) (uint b))) = drop_bit 2 (uint g)"
    and "take_bit 5 (rgb565_shift (uint r) (uint g) (uint b)) = drop_bit 3 (uint b)"
  unfolding rgb565_shift_def
  by (rule bit_eqI; auto simp add: bit_simps dest: bit_imp_le_length)+

lemma rgb565_shift_arith:
  fixes r g b :: "8 word"
  shows "rgb565_shift (uint r) (uint g) (uint b)
       = uint r div 8 * 2048 + uint g div 4 * 32 + uint b div 8"
proof -
  have 1: "push_bit 11 (drop_bit 3 (uint r)) AND push_bit 5 (drop_bit 2 (uint g)) = 0"
    by (rule bit_eqI) (auto simp add: bit_simps dest: bit_imp_le_length)
  have 2: "(push_bit 11 (drop_bit 3 (uint r)) + push_bit 5 (drop_bit 2 (uint g)))
             AND drop_bit 3 (uint b) = 0"
    unfolding disjunctive_add_eq_or [OF 1]
    by (rule bit_eqI) (auto simp add: bit_simps dest: bit_imp_le_length)
  show ?thesis
    unfolding rgb565_shift_def disjunctive_add_eq_or [OF 1, symmetric]
      disjunctive_add_eq_or [OF 2, symmetric]
    by (simp add: push_bit_eq_mult drop_bit_eq_div)
qed

lemma rgb565_value_range:
  fixes r g b :: "8 word"
  shows "0 \<le> uint r div 8 * 2048 + uint g div 4 * 32 + uint b div 8"
    and "uint r div 8 * 2048 + uint g div 4 * 32 + uint b div 8 \<le> 65535"
proof -
  have "uint r < 256" "uint g < 256" "uint b < 256"
    using uint_bounded [of r] uint_bounded [of g] uint_bounded [of b] by simp_all
  then have "uint r div 8 \<le> 31" "uint g div 4 \<le> 63" "uint b div 8 \<le> 31"
    by simp_all
  then show "uint r div 8 * 2048 + uint g div 4 * 32 + uint b div 8 \<le> 65535"
    by simp
  have "0 \<le> uint r div 8" "0 \<le> uint g div 4" "0 \<le> uint b div 8"
    by (simp_all add: pos_imp_zdiv_nonneg_iff)
  then show "0 \<le> uint r div 8 * 2048 + uint g div 4 * 32 + uint b div 8"
    by linarith
qed

lemma struct_pack_H_single:
  "0 \<le> v \<Longrightarrow> v \<le> 65535 \<Longrightarrow> struct_pack_H [v] = Inr (be16 v)"
  by (simp add: struct_pack_H_def)

lemma rgb888_to_rgb565_be_uint:
  fixes r g b :: "8 word"
  shows "rgb888_to_rgb565_be (uint r) (uint g) (uint b)
       = Inr (be16 (uint r div 8 * 2048 + uint g div 4 * 32 + uint b div 8))"
  unfolding rgb888_to_rgb565_be_def rgb565_mask_eq_shift rgb565_shift_arith
  by (rule struct_pack_H_single) (rule rgb565_value_range)+

lemma be16_readback:
  assumes "0 \<le> v" "v \<le> 65535"
  shows "uint (word_of_int (v div 256) :: byte) * 256 + uint (word_of_int (v mod 256) :: byte) = v"
proof -
  have "v div 256 < 256" using assms by simp
  moreover have "0 \<le> v div 256" using assms by simp
  ultimately have "take_bit 8 (v div 256) = v div 256"
    by (simp add: take_bit_int_eq_self)
  moreover have "take_bit 8 (v mod 256) = v mod 256"
    by (simp add: take_bit_eq_mod)
  ultimately show ?thesis
    by (simp add: uint_word_of_int_eq)
qed

text \<open>
  Claim C2. For 8-bit channels \<open>r\<close>, \<open>g\<close>, \<open>b\<close> let \<open>v\<close> be the 16-bit value with
  \<open>r >> 3\<close> in bits 15..11, \<open>g >> 2\<close> in bits 10..5 and \<open>b >> 3\<close> in bits 4..0. Then
  \<open>rgb888_to_rgb565_be\<close> returns exactly two bytes, the high byte of \<open>v\<close> first; the
  mask-based expression of \<open>make_spans.py\<close> and the shift-based expression of
  \<open>image_converter.py\<close> both evaluate to \<open>v\<close>, and packing either gives the same bytes.
\<close>

theorem pixel_codec_rgb565:
  fixes r g b :: "8 word"
  shows "(let v = uint r div 8 * 2048 + uint g div 4 * 32 + uint b div 8 in
            (\<exists>hi lo. rgb888_to_rgb565_be (uint r) (uint g) (uint b) = Inr [hi, lo]
                    \<and> uint hi * 256 + uint lo = v)
          \<and> v < 2 ^ 16
          \<and> drop_bit 11 v = drop_bit 3 (uint r)
          \<and> take_bit 6 (drop_bit 5 v) = drop_bit 2 (uint g)
          \<and> take_bit 5 v = drop_bit 3 (uint b)
          \<and> rgb565_mask (uint r) (uint g) (uint b) = v
          \<and> rgb565_shift (uint r) (uint g) (uint b) = v
          \<and> struct_pack_H [rgb565_shift (uint r) (uint g) (uint b)]
              = rgb888_to_rgb565_be (uint r) (uint g) (uint b))"
proof -
  define v where "v = uint r div 8 * 2048 + uint g div 4 * 32 + uint b div 8"
  have range: "0 \<le> v" "v \<le> 65535"
    unfolding v_def by (rule rgb565_value_range)+
  have shift: "rgb565_shift (uint r) (uint g) (uint b) = v"
    unfolding v_def by (rule rgb565_shift_arith)
  have mask: "rgb565_mask (uint r) (uint g) (uint b) = v"
    unfolding rgb565_mask_eq_shift by (rule shift)
  have enc: "rgb888_to_rgb565_be (uint r) (uint g) (uint b) = Inr (be16 v)"
    unfolding v_def by (rule rgb888_to_rgb565_be_uint)
  have bytes: "\<exists>hi lo. rgb888_to_rgb565_be (uint r) (uint g) (uint b) = Inr [hi, lo]
      \<and> uint hi * 256 + uint lo = v"
    unfolding enc be16_def using be16_readback [OF range] by blast
  have same: "struct_pack_H [rgb565_shift (uint r) (uint g) (uint b)]
      = rgb888_to_rgb565_be (uint r) (uint g) (uint b)"
    by (simp only: rgb888_to_rgb565_be_def rgb565_mask_eq_shift)
  have f1: "drop_bit 11 v = drop_bit 3 (uint r)"
    and f2: "take_bit 6 (drop_bit 5 v) = drop_bit 2 (uint g)"
    and f3: "take_bit 5 v = drop_bit 3 (uint b)"
    using rgb565_shift_fields [of r g b] unfolding shift by blast+
  have "v < 2 ^ 16" using range by simp
  with bytes f1 f2 f3 mask shift same show ?thesis
    unfolding Let_def v_def [symmetric] by blast
qed

subsection \<open>Dense encoding\<close>

lemma rgb888_to_rgb565_be_codec_bytes:
  "rgb888_to_rgb565_be (uint r) (uint g) (uint b) = Inr (codec_bytes r g b)"
  by (simp add: codec_bytes_def rgb888_to_rgb565_be_uint)

lemma length_codec_bytes [simp]: "length (codec_bytes r g b) = 2"
  by (simp add: codec_bytes_def rgb888_to_rgb565_be_uint be16_def)

lemma bindE_Inr [simp]: "bindE (Inr v) f = f v"
  by (simp add: bindE_def)

lemma bindE_Inl [simp]: "bindE (Inl e) f = Inl e"
  by (simp add: bindE_def)

lemma for_each_append:
  "for_each body (xs @ ys) s = bindE (for_each body xs s) (for_each body ys)"
  by (induction xs arbitrary: s) (auto simp: bindE_def split: sum.splits)

text \<open>The bytes of the pixels of row \<open>y\<close> at the columns \<open>xs\<close>.\<close>

lemma pixels_in_range:
  "x < img_w img \<Longrightarrow> y < img_h img \<Longrightarrow>
   pixels img x y = (case img_px img x y of (r, g, b, a) \<Rightarrow> Inr (uint r, uint g, uint b, uint a))"
  by (simp add: pixels_def)

lemma append_pixel_step:
  assumes "x < img_w img" "y < img_h img"
  shows "bindE (pixels img x y) (\<lambda>(r, g, b, a).
           bindE (rgb888_to_rgb565_be r g b) (\<lambda>bs. Inr (acc @ bs)))
       = Inr (acc @ (case img_px img x y of (r, g, b, a) \<Rightarrow> codec_bytes r g b))"
  using assms
  by (simp add: pixels_in_range rgb888_to_rgb565_be_codec_bytes split: prod.splits)

lemma append_pixels_loop:
  assumes "y < img_h img" "\<forall>x \<in> set xs. x < img_w img"
  shows "for_each (\<lambda>x acc. bindE (pixels img x y) (\<lambda>(r, g, b, a).
           bindE (rgb888_to_rgb565_be r g b) (\<lambda>bs. Inr (acc @ bs)))) xs acc
       = Inr (acc @ concat (map (\<lambda>x. case img_px img x y of (r, g, b, a) \<Rightarrow> codec_bytes r g b) xs))"
  using assms(2)
proof (induction xs arbitrary: acc)
  case Nil
  show ?case by simp
next
  case (Cons x xs)
  then show ?case
    by (simp add: append_pixel_step [OF _ assms(1)])
qed

lemma full_raw_rows:
  assumes "\<forall>y \<in> set ys. y < img_h img"
  shows "for_each (\<lambda>y. for_each (\<lambda>x acc. bindE (pixels img x y) (\<lambda>(r, g, b, a).
           bindE (rgb888_to_rgb565_be r g b) (\<lambda>bs. Inr (acc @ bs)))) [0..<img_w img]) ys acc
       = Inr (acc @ concat (map (\<lambda>y. concat (map (\<lambda>x. case img_px img x y of (r, g, b, a) \<Rightarrow> codec_bytes r g b) [0..<img_w img])) ys))"
  using assms
proof (induction ys arbitrary: acc)
  case Nil
  show ?case by simp
next
  case (Cons y ys)
  then show ?case
    by (simp add: append_pixels_loop)
qed

lemma full_raw_eq:
  "full_raw img = Inr (concat (map (\<lambda>y. concat (map (\<lambda>x. case img_px img x y of (r, g, b, a) \<Rightarrow> codec_bytes r g b) [0..<img_w img])) [0..<img_h img]))"
  unfolding full_raw_def by (simp add: full_raw_rows)

lemma length_concat_const:
  "(\<And>x. x \<in> set xs \<Longrightarrow> length (f x) = k) \<Longrightarrow> length (concat (map f xs)) = length xs * k"
  by (induction xs) simp_all

lemma length_row_bytes:
  "length (concat (map (\<lambda>x. case img_px img x y of (r, g, b, a) \<Rightarrow> codec_bytes r g b) xs)) = length xs * 2"
  by (rule length_concat_const) (simp split: prod.splits)

lemma length_frame_bytes:
  "length (concat (map (\<lambda>y. concat (map (\<lambda>x. case img_px img x y of (r, g, b, a) \<Rightarrow> codec_bytes r g b) [0..<w])) ys)) = length ys * (w * 2)"
  by (rule length_concat_const) (simp add: length_row_bytes)


text \<open>The slice-assignment loop of \<open>to_rgb565_be_bytes\<close>.\<close>

lemma store_pixel_step:
  assumes "x < img_w img" "y < img_h img" "2 \<le> n"
  shows "(case (pre @ replicate n (0::byte), length pre) of (out, i) \<Rightarrow>
            bindE (px img x y) (\<lambda>(r, g, b).
              let v = rgb565_shift r g b in
              bindE (struct_pack_H [v]) (\<lambda>bs.
              Inr (take i out @ bs @ drop (i + 2) out, i + 2))))
       = Inr ((pre @ (case img_px img x y of (r, g, b) \<Rightarrow> codec_bytes r g b))
                 @ replicate (n - 2) 0,
              length (pre @ (case img_px img x y of (r, g, b) \<Rightarrow> codec_bytes r g b)))"
proof -
  obtain r g b where p: "img_px img x y = (r, g, b)"
    by (cases "img_px img x y")
  have pack: "struct_pack_H [rgb565_shift (uint r) (uint g) (uint b)] = Inr (codec_bytes r g b)"
    using rgb888_to_rgb565_be_codec_bytes [of r g b]
    by (simp only: rgb888_to_rgb565_be_def rgb565_mask_eq_shift)
  show ?thesis
    using assms by (simp add: px_def p pack)
qed

lemma store_pixels_loop:
  assumes "y < img_h img" "\<forall>x \<in> set xs. x < img_w img" "2 * length xs \<le> n"
  shows "for_each (\<lambda>x (out, i).
            bindE (px img x y) (\<lambda>(r, g, b).
              let v = rgb565_shift r g b in
              bindE (struct_pack_H [v]) (\<lambda>bs.
              Inr (take i out @ bs @ drop (i + 2) out, i + 2))))
          xs (pre @ replicate n (0::byte), length pre)
       = Inr ((pre @ concat (map (\<lambda>x. case img_px img x y of (r, g, b) \<Rightarrow> codec_bytes r g b) xs))
                 @ replicate (n - 2 * length xs) 0,
              length (pre @ concat (map (\<lambda>x. case img_px img x y of (r, g, b) \<Rightarrow> codec_bytes r g b) xs)))"
  using assms(2,3)
proof (induction xs arbitrary: pre n)
  case Nil
  show ?case by simp
next
  case (Cons x xs)
  from Cons.prems have x: "x < img_w img" and n: "2 \<le> n"
    and xs: "\<forall>x \<in> set xs. x < img_w img" and n': "2 * length xs \<le> n - 2"
    by simp_all
  have m: "n - 2 - 2 * length xs = n - 2 * length (x # xs)"
    by simp
  show ?case
    unfolding for_each.simps store_pixel_step [OF x assms(1) n] bindE_Inr
      Cons.IH [OF xs n'] m
    by simp
qed

lemma store_rows_loop:
  assumes "\<forall>y \<in> set ys. y < img_h img" "2 * img_w img * length ys \<le> n"
  shows "for_each (\<lambda>y. for_each (\<lambda>x (out, i).
            bindE (px img x y) (\<lambda>(r, g, b).
              let v = rgb565_shift r g b in
              bindE (struct_pack_H [v]) (\<lambda>bs.
              Inr (take i out @ bs @ drop (i + 2) out, i + 2))))
            [0..<img_w img])
          ys (pre @ replicate n (0::byte), length pre)
       = Inr ((pre @ concat (map (\<lambda>y. concat (map (\<lambda>x. case img_px img x y of (r, g, b) \<Rightarrow> codec_bytes r g b) [0..<img_w img])) ys))
                 @ replicate (n - 2 * img_w img * length ys) 0,
              length (pre @ concat (map (\<lambda>y. concat (map (\<lambda>x. case img_px img x y of (r, g, b) \<Rightarrow> codec_bytes r g b) [0..<img_w img])) ys)))"
  using assms
proof (induction ys arbitrary: pre n)
  case Nil
  show ?case by simp
next
  case (Cons y ys)
  from Cons.prems have y: "y < img_h img" and ys: "\<forall>y \<in> set ys. y < img_h img"
    and n: "2 * length [0..<img_w img] \<le> n"
    and n': "2 * img_w img * length ys \<le> n - 2 * length [0..<img_w img]"
    by simp_all
  have xs: "\<forall>x \<in> set [0..<img_w img]. x < img_w img"
    by simp
  have m: "n - 2 * length [0..<img_w img] - 2 * img_w img * length ys
         = n - 2 * img_w img * length (y # ys)"
    by simp
  show ?case
    unfolding for_each.simps store_pixels_loop [OF y xs n] bindE_Inr
      Cons.IH [OF ys n'] m
    by simp
qed

lemma to_rgb565_be_bytes_eq:
  "to_rgb565_be_bytes img = Inr (concat (map (\<lambda>y. concat (map (\<lambda>x. case img_px img x y of (r, g, b) \<Rightarrow> codec_bytes r g b) [0..<img_w img])) [0..<img_h img]))"
proof -
  have ys: "\<forall>y \<in> set [0..<img_h img]. y < img_h img"
    by simp
  have n: "2 * img_w img * length [0..<img_h img] \<le> img_w img * img_h img * 2"
    by simp
  show ?thesis
    unfolding to_rgb565_be_bytes_def Let_def
    using store_rows_loop [OF ys n, of "[]"]
    by simp
qed

lemma length_row_bytes_rgb:
  "length (concat (map (\<lambda>x. case img_px img x y of (r, g, b) \<Rightarrow> codec_bytes r g b) xs)) = length xs * 2"
  by (rule length_concat_const) (simp split: prod.splits)

lemma length_frame_bytes_rgb:
  "length (concat (map (\<lambda>y. concat (map (\<lambda>x. case img_px img x y of (r, g, b) \<Rightarrow> codec_bytes r g b) [0..<w])) ys)) = length ys * (w * 2)"
  by (rule length_concat_const) (simp add: length_row_bytes_rgb)

text \<open>
  Claim C4. Both dense encoders return, for every image, the two codec bytes of every pixel,
  rows from top to bottom and each row from left to right, whatever the pixel (key-coloured
  or not), and the buffer is \<open>w * h * 2\<close> bytes long.
\<close>

theorem dense_encoding:
  fixes img :: "rgba image" and img' :: "rgb image"
  shows "(\<exists>out. full_raw img = Inr out
            \<and> out = concat (map (\<lambda>y. concat (map (\<lambda>x.
                       case img_px img x y of (r, g, b, a) \<Rightarrow> codec_bytes r g b)
                     [0..<img_w img])) [0..<img_h img])
            \<and> length out = img_w img * img_h img * 2)
       \<and> (\<exists>out. to_rgb565_be_bytes img' = Inr out
            \<and> out = concat (map (\<lambda>y. concat (map (\<lambda>x.
                       case img_px img' x y of (r, g, b) \<Rightarrow> codec_bytes r g b)
                     [0..<img_w img'])) [0..<img_h img'])
            \<and> length out = img_w img' * img_h img' * 2)"
  by (simp add: full_raw_eq to_rgb565_be_bytes_eq length_frame_bytes length_frame_bytes_rgb)

subsection \<open>Runs of one row\<close>

lemma pixels_Inr:
  assumes "x < img_w img" "y < img_h img"
  obtains p where "pixels img x y = Inr p"
  using assms by (cases "img_px img x y") (simp add: pixels_in_range)

lemma scan_run_spec:
  "y < img_h img \<Longrightarrow>
   \<exists>x'. scan_run img key_rgb y x = Inr x' \<and> x \<le> x'
            \<and> (\<forall>i. x \<le> i \<and> i < x' \<longrightarrow> i < img_w img \<and> \<not> transparent_at img key_rgb i y)
            \<and> (x' < img_w img \<longrightarrow> transparent_at img key_rgb x' y)"
proof (induction img key_rgb y x rule: scan_run.induct)
  case (1 img key_rgb y x)
  show ?case
  proof (cases "x < img_w img")
    case False
    then show ?thesis
      by (simp add: scan_run.simps [of img key_rgb y x])
  next
    case True
    then obtain p where p: "pixels img x y = Inr p"
      using "1.prems" by (rule pixels_Inr)
    show ?thesis
    proof (cases "transparent key_rgb p")
      case True
      then have "transparent_at img key_rgb x y"
        using p by (simp add: transparent_at_def)
      moreover have "scan_run img key_rgb y x = Inr x"
        using \<open>x < img_w img\<close> p True by (simp add: scan_run.simps [of img key_rgb y x])
      ultimately show ?thesis
        by auto
    next
      case False
      from "1.IH" [OF \<open>x < img_w img\<close> p False "1.prems"]
      obtain x' where x': "scan_run img key_rgb y (x + 1) = Inr x'" "x + 1 \<le> x'"
        "\<forall>i. x + 1 \<le> i \<and> i < x' \<longrightarrow> i < img_w img \<and> \<not> transparent_at img key_rgb i y"
        "x' < img_w img \<longrightarrow> transparent_at img key_rgb x' y"
        by blast
      have here: "\<not> transparent_at img key_rgb x y"
        using p False by (simp add: transparent_at_def)
      have "scan_run img key_rgb y x = Inr x'"
        using \<open>x < img_w img\<close> p False x'(1) by (simp add: scan_run.simps [of img key_rgb y x])
      moreover have "\<forall>i. x \<le> i \<and> i < x' \<longrightarrow> i < img_w img \<and> \<not> transparent_at img key_rgb i y"
      proof (intro allI impI)
        fix i assume i: "x \<le> i \<and> i < x'"
        show "i < img_w img \<and> \<not> transparent_at img key_rgb i y"
        proof (cases "i = x")
          case True
          with here \<open>x < img_w img\<close> show ?thesis by simp
        next
          case False
          with i have "x + 1 \<le> i \<and> i < x'" by simp
          with x'(3) show ?thesis by blast
        qed
      qed
      ultimately show ?thesis
        using x'(2,4) by auto
    qed
  qed
qed

lemma runs_inv_skip:
  assumes "runs_inv img key_rgb y x row_runs" "transparent_at img key_rgb x y"
  shows "runs_inv img key_rgb y (x + 1) row_runs"
  unfolding runs_inv_def
proof (intro conjI)
  show "\<forall>(s, l) \<in> set row_runs.
          1 \<le> l \<and> s + l \<le> x + 1 \<and> (s + l < img_w img \<longrightarrow> transparent_at img key_rgb (s + l) y)"
    using assms(1) unfolding runs_inv_def by fastforce
  show "sorted_wrt (\<lambda>a b. fst a + snd a < fst b) row_runs"
    using assms(1) unfolding runs_inv_def by blast
  show "\<forall>i < x + 1. \<not> transparent_at img key_rgb i y
                   \<longleftrightarrow> (\<exists>(s, l) \<in> set row_runs. s \<le> i \<and> i < s + l)"
  proof (intro allI impI)
    fix i assume "i < x + 1"
    show "\<not> transparent_at img key_rgb i y \<longleftrightarrow> (\<exists>(s, l) \<in> set row_runs. s \<le> i \<and> i < s + l)"
    proof (cases "i = x")
      case True
      have "\<not> (\<exists>(s, l) \<in> set row_runs. s \<le> x \<and> x < s + l)"
        using assms(1) unfolding runs_inv_def by fastforce
      with True assms(2) show ?thesis by simp
    next
      case False
      with \<open>i < x + 1\<close> have "i < x" by simp
      with assms(1) show ?thesis unfolding runs_inv_def by blast
    qed
  qed
qed

lemma runs_inv_append:
  assumes inv: "runs_inv img key_rgb y x row_runs"
    and x: "x < x'" "x < img_w img"
    and opaque: "\<forall>i. x \<le> i \<and> i < x' \<longrightarrow> i < img_w img \<and> \<not> transparent_at img key_rgb i y"
    and stop: "x' < img_w img \<longrightarrow> transparent_at img key_rgb x' y"
  shows "runs_inv img key_rgb y x' (row_runs @ [(x, x' - x)])"
  unfolding runs_inv_def
proof (intro conjI)
  have old: "\<And>s l. (s, l) \<in> set row_runs \<Longrightarrow>
      1 \<le> l \<and> s + l \<le> x \<and> (s + l < img_w img \<longrightarrow> transparent_at img key_rgb (s + l) y)"
    using inv unfolding runs_inv_def by blast
  have here: "\<not> transparent_at img key_rgb x y"
    using opaque x(1) by simp
  have before: "s + l < x" if "(s, l) \<in> set row_runs" for s l
  proof -
    from old [OF that] have le: "s + l \<le> x"
      and t: "s + l < img_w img \<longrightarrow> transparent_at img key_rgb (s + l) y"
      by simp_all
    have "s + l \<noteq> x"
      using t here x(2) by auto
    with le show ?thesis by simp
  qed
  show "\<forall>(s, l) \<in> set (row_runs @ [(x, x' - x)]).
          1 \<le> l \<and> s + l \<le> x' \<and> (s + l < img_w img \<longrightarrow> transparent_at img key_rgb (s + l) y)"
    using old x(1) stop by fastforce
  show "sorted_wrt (\<lambda>a b. fst a + snd a < fst b) (row_runs @ [(x, x' - x)])"
    using inv before unfolding runs_inv_def by (auto simp: sorted_wrt_append)
  show "\<forall>i < x'. \<not> transparent_at img key_rgb i y
                   \<longleftrightarrow> (\<exists>(s, l) \<in> set (row_runs @ [(x, x' - x)]). s \<le> i \<and> i < s + l)"
  proof (intro allI impI)
    fix i assume "i < x'"
    show "\<not> transparent_at img key_rgb i y
        \<longleftrightarrow> (\<exists>(s, l) \<in> set (row_runs @ [(x, x' - x)]). s \<le> i \<and> i < s + l)"
    proof (cases "i < x")
      case True
      with inv have "\<not> transparent_at img key_rgb i y
          \<longleftrightarrow> (\<exists>(s, l) \<in> set row_runs. s \<le> i \<and> i < s + l)"
        unfolding runs_inv_def by blast
      with True show ?thesis by auto
    next
      case False
      with \<open>i < x'\<close> opaque have "\<not> transparent_at img key_rgb i y" by simp
      moreover have "x \<le> i \<and> i < x + (x' - x)"
        using False \<open>i < x'\<close> by simp
      ultimately show ?thesis by auto
    qed
  qed
qed

lemma scan_row_inv:
  "y < img_h img \<Longrightarrow> x \<le> img_w img \<Longrightarrow> runs_inv img key_rgb y x row_runs \<Longrightarrow>
         \<exists>rs. scan_row img key_rgb y x row_runs = Inr rs \<and> runs_inv img key_rgb y (img_w img) rs"
proof (induction img key_rgb y x row_runs rule: scan_row.induct)
  case (1 img key_rgb y x row_runs)
  show ?case
  proof (cases "x < img_w img")
    case False
    then have "scan_row img key_rgb y x row_runs = Inr row_runs"
      by (simp add: scan_row.simps [of img key_rgb y x])
    moreover from False "1.prems" have "x = img_w img" by simp
    ultimately show ?thesis
      using "1.prems"(3) by simp
  next
    case True
    then obtain p where p: "pixels img x y = Inr p"
      using "1.prems"(1) by (rule pixels_Inr)
    show ?thesis
    proof (cases "transparent key_rgb p")
      case t: True
      then have "transparent_at img key_rgb x y"
        using p by (simp add: transparent_at_def)
      with "1.prems"(3) have "runs_inv img key_rgb y (x + 1) row_runs"
        by (rule runs_inv_skip)
      moreover from True have "x + 1 \<le> img_w img" by simp
      ultimately obtain rs where "scan_row img key_rgb y (x + 1) row_runs = Inr rs"
        "runs_inv img key_rgb y (img_w img) rs"
        using "1.IH"(1) [OF True p t "1.prems"(1)] by blast
      then show ?thesis
        using True p t by (simp add: scan_row.simps [of img key_rgb y x])
    next
      case f: False
      from scan_run_spec [OF "1.prems"(1), of key_rgb x]
      obtain x' where x': "scan_run img key_rgb y x = Inr x'" "x \<le> x'"
        "\<forall>i. x \<le> i \<and> i < x' \<longrightarrow> i < img_w img \<and> \<not> transparent_at img key_rgb i y"
        "x' < img_w img \<longrightarrow> transparent_at img key_rgb x' y"
        by blast
      have lt: "x < x'"
        using True p f x'(1) by (rule scan_run_advances)
      have le: "x' \<le> img_w img"
      proof -
        from lt have "x \<le> x' - 1 \<and> x' - 1 < x'" by simp
        with x'(3) have "x' - 1 < img_w img" by blast
        then show ?thesis by simp
      qed
      have "runs_inv img key_rgb y x' (row_runs @ [(x, x' - x)])"
        using "1.prems"(3) lt True x'(3,4) by (rule runs_inv_append)
      from "1.IH"(2) [OF True p f x'(1) "1.prems"(1) le this]
      obtain rs where "scan_row img key_rgb y x' (row_runs @ [(x, x' - x)]) = Inr rs"
        "runs_inv img key_rgb y (img_w img) rs"
        by blast
      then show ?thesis
        using True p f x'(1) by (simp add: scan_row.simps [of img key_rgb y x])
    qed
  qed
qed

lemma runs_inv_Nil: "runs_inv img key_rgb y 0 []"
  by (simp add: runs_inv_def)

lemma scan_row_runs:
  assumes "y < img_h img"
  shows "\<exists>rs. scan_row img key_rgb y 0 [] = Inr rs \<and> runs_inv img key_rgb y (img_w img) rs"
  using scan_row_inv [OF assms _ runs_inv_Nil] by simp


lemma runs_inv_lengths:
  "runs_inv img key_rgb y x rs \<Longrightarrow> \<forall>(s, l) \<in> set rs. 1 \<le> l \<and> s + l \<le> x"
  unfolding runs_inv_def by fastforce

lemma runs_inv_starts:
  assumes "runs_inv img key_rgb y x rs"
  shows "sorted_wrt (\<lambda>a b. fst a < fst b) rs"
proof -
  have "sorted_wrt (\<lambda>a b. fst a + snd a < fst b) rs"
    using assms unfolding runs_inv_def by blast
  then show ?thesis
    by (rule sorted_wrt_mono_rel [rotated]) simp
qed

lemma runs_inv_disjoint:
  assumes "runs_inv img key_rgb y x rs"
  shows "sorted_wrt (\<lambda>a b. fst a + snd a \<le> fst b) rs"
proof -
  have "sorted_wrt (\<lambda>a b. fst a + snd a < fst b) rs"
    using assms unfolding runs_inv_def by blast
  then show ?thesis
    by (rule sorted_wrt_mono_rel [rotated]) simp
qed

lemma runs_inv_cover:
  assumes "runs_inv img key_rgb y x rs" "i < x"
  shows "\<not> transparent_at img key_rgb i y \<longleftrightarrow> (\<exists>(s, l) \<in> set rs. s \<le> i \<and> i < s + l)"
  using assms unfolding runs_inv_def by blast

lemma runs_inv_adjacent:
  assumes inv: "runs_inv img key_rgb y (img_w img) rs"
    and i: "Suc i < img_w img"
    and o: "\<not> transparent_at img key_rgb i y" "\<not> transparent_at img key_rgb (Suc i) y"
  shows "\<exists>(s, l) \<in> set rs. s \<le> i \<and> Suc i < s + l"
proof -
  from i have "i < img_w img" by simp
  with inv o(1) obtain s l where sl: "(s, l) \<in> set rs" "s \<le> i" "i < s + l"
    by (auto simp: runs_inv_cover)
  from inv sl(1) have "s + l < img_w img \<longrightarrow> transparent_at img key_rgb (s + l) y"
    unfolding runs_inv_def by blast
  with o(2) i have "s + l \<noteq> Suc i"
    by auto
  with sl(3) have "Suc i < s + l" by simp
  with sl(1,2) show ?thesis by blast
qed

lemma runs_inv_union:
  assumes inv: "runs_inv img key_rgb y (img_w img) rs"
  shows "(\<Union>(s, l) \<in> set rs. {s..<s + l}) = {i. i < img_w img \<and> \<not> transparent_at img key_rgb i y}"
proof (rule set_eqI)
  fix i
  show "i \<in> (\<Union>(s, l) \<in> set rs. {s..<s + l})
      \<longleftrightarrow> i \<in> {i. i < img_w img \<and> \<not> transparent_at img key_rgb i y}"
  proof (cases "i < img_w img")
    case True
    have "i \<in> (\<Union>(s, l) \<in> set rs. {s..<s + l})
        \<longleftrightarrow> (\<exists>(s, l) \<in> set rs. s \<le> i \<and> i < s + l)"
      by fastforce
    with True runs_inv_cover [OF inv True] show ?thesis
      by simp
  next
    case False
    have "\<not> (s \<le> i \<and> i < s + l)" if "(s, l) \<in> set rs" for s l
      using runs_inv_lengths [OF inv] that False by fastforce
    with False show ?thesis by auto
  qed
qed

text \<open>
  Claim C1. In every row of every image the scan returns a list of runs in which each run
  has at least one pixel, the starts increase strictly from left to right, no run reaches
  into the next, two neighbouring non-transparent pixels always lie in one run, and the
  columns of the runs together are exactly the non-transparent columns of the row.
\<close>

theorem row_runs_maximal:
  assumes "y < img_h img"
  shows "\<exists>row_runs. scan_row img key_rgb y 0 [] = Inr row_runs
     \<and> (\<forall>(s, l) \<in> set row_runs. 1 \<le> l)
     \<and> sorted_wrt (\<lambda>a b. fst a < fst b) row_runs
     \<and> sorted_wrt (\<lambda>a b. fst a + snd a \<le> fst b) row_runs
     \<and> (\<forall>x. Suc x < img_w img \<and> \<not> transparent_at img key_rgb x y
              \<and> \<not> transparent_at img key_rgb (Suc x) y
           \<longrightarrow> (\<exists>(s, l) \<in> set row_runs. s \<le> x \<and> Suc x < s + l))
     \<and> (\<Union>(s, l) \<in> set row_runs. {s..<s + l})
         = {x. x < img_w img \<and> \<not> transparent_at img key_rgb x y}"
proof -
  from scan_row_runs [OF assms, of key_rgb]
  obtain rs where rs: "scan_row img key_rgb y 0 [] = Inr rs"
    and inv: "runs_inv img key_rgb y (img_w img) rs"
    by blast
  have "\<forall>(s, l) \<in> set rs. 1 \<le> l"
    using runs_inv_lengths [OF inv] by fastforce
  moreover note runs_inv_starts [OF inv] runs_inv_disjoint [OF inv] runs_inv_union [OF inv]
  moreover have "\<forall>x. Suc x < img_w img \<and> \<not> transparent_at img key_rgb x y
              \<and> \<not> transparent_at img key_rgb (Suc x) y
           \<longrightarrow> (\<exists>(s, l) \<in> set rs. s \<le> x \<and> Suc x < s + l)"
    using runs_inv_adjacent [OF inv] by blast
  ultimately show ?thesis
    using rs by blast
qed

lemma sample_row_runs: "scan_row sample_row LIME_KEY 0 0 [] = Inr [(1, 2), (4, 1)]"
  by (simp add: scan_row.simps scan_run.simps sample_row_def image_of_def pixels_def
      transparent_def LIME_KEY_def)

theorem row_runs_maximal_witness:
  "0 < img_h sample_row
   \<and> scan_row sample_row LIME_KEY 0 0 [] = Inr [(1, 2), (4, 1)]
   \<and> sorted_wrt (\<lambda>a b. fst a < fst b) [(1 :: nat, 2 :: nat), (4, 1)]
   \<and> sorted_wrt (\<lambda>a b. fst a + snd a \<le> fst b) [(1 :: nat, 2 :: nat), (4, 1)]
   \<and> (\<Union>(s, l) \<in> set [(1 :: nat, 2 :: nat), (4, 1)]. {s..<s + l})
       = {x. x < img_w sample_row \<and> \<not> transparent_at sample_row LIME_KEY x 0}"
proof -
  have h: "0 < img_h sample_row"
    by (simp add: sample_row_def image_of_def)
  show ?thesis
    using h sample_row_runs row_runs_maximal [OF h, of LIME_KEY] unfolding sample_row_runs
    by simp
qed

subsection \<open>The sprite buffer\<close>

lemma struct_pack_H_pair:
  "0 \<le> a \<Longrightarrow> a \<le> 65535 \<Longrightarrow> 0 \<le> b \<Longrightarrow> b \<le> 65535 \<Longrightarrow>
   struct_pack_H [a, b] = Inr (be16 a @ be16 b)"
  by (simp add: struct_pack_H_def)

lemma struct_pack_H_triple:
  "0 \<le> a \<Longrightarrow> a \<le> 65535 \<Longrightarrow> 0 \<le> b \<Longrightarrow> b \<le> 65535 \<Longrightarrow> 0 \<le> c \<Longrightarrow> c \<le> 65535 \<Longrightarrow>
   struct_pack_H [a, b, c] = Inr (be16 a @ be16 b @ be16 c)"
  by (simp add: struct_pack_H_def)

lemma pick_key_color_eq: "pick_key_color = Inr ([0x8F, 0x01], LIME_KEY)"
  by (simp add: pick_key_color_def LIME_KEY_def rgb888_to_rgb565_be_def rgb565_mask_def
      struct_pack_H_def be16_def)

lemma key565_eq: "struct_unpack_H [0x8F, 0x01] = Inr 0x8F01"
  by (simp add: struct_unpack_H_def)

lemma emit_run_ok:
  assumes "y < img_h img" "sx + ln \<le> img_w img" "img_w img \<le> 65535"
  shows "emit_run img y (sx, ln) (acc, tot)
       = Inr (acc @ run_bytes img y (sx, ln), tot + ln)"
proof -
  have pack: "struct_pack_H [int sx, int ln] = Inr (be16 (int sx) @ be16 (int ln))"
    using assms(2,3) by (intro struct_pack_H_pair) simp_all
  have cols: "\<forall>x \<in> set [sx..<sx + ln]. x < img_w img"
    using assms(2) by simp
  show ?thesis
    unfolding emit_run_def prod.case pack bindE_Inr append_pixels_loop [OF assms(1) cols]
    by (simp add: run_bytes_def)
qed

lemma emit_runs_ok:
  assumes "y < img_h img" "img_w img \<le> 65535"
  shows "\<forall>(s, l) \<in> set rs. s + l \<le> img_w img \<Longrightarrow>
         for_each (emit_run img y) rs (acc, tot)
       = Inr (acc @ concat (map (run_bytes img y) rs), tot + sum_list (map snd rs))"
proof (induction rs arbitrary: acc tot)
  case Nil
  show ?case by simp
next
  case (Cons run rs)
  obtain sx ln where run: "run = (sx, ln)"
    by (cases run)
  from Cons.prems run have fit: "sx + ln \<le> img_w img"
    and rest: "\<forall>(s, l) \<in> set rs. s + l \<le> img_w img"
    by simp_all
  show ?case
    unfolding for_each.simps run emit_run_ok [OF assms(1) fit assms(2)] bindE_Inr
      Cons.IH [OF rest]
    by simp
qed

lemma strictly_increasing_length:
  fixes xs :: "nat list"
  assumes "sorted_wrt (<) xs" "\<forall>x \<in> set xs. x < n"
  shows "length xs \<le> n"
proof -
  from assms(1) have "distinct xs"
    by (simp add: strict_sorted_iff)
  then have "length xs = card (set xs)"
    by (simp add: distinct_card)
  also have "\<dots> \<le> card {0..<n}"
    using assms(2) by (intro card_mono) auto
  finally show ?thesis by simp
qed

lemma runs_inv_count:
  assumes "runs_inv img key_rgb y x rs"
  shows "length rs \<le> x"
proof -
  have "sorted_wrt (<) (map fst rs)"
    using runs_inv_starts [OF assms] by (simp add: sorted_wrt_map)
  moreover have "\<forall>s \<in> set (map fst rs). s < x"
    using runs_inv_lengths [OF assms] by fastforce
  ultimately have "length (map fst rs) \<le> x"
    by (rule strictly_increasing_length)
  then show ?thesis by simp
qed

lemma row_runs_of_inv:
  assumes "y < img_h img"
  shows "scan_row img key_rgb y 0 [] = Inr (row_runs_of img key_rgb y)"
    and "runs_inv img key_rgb y (img_w img) (row_runs_of img key_rgb y)"
  using scan_row_runs [OF assms, of key_rgb] by (auto simp: row_runs_of_def)

lemma encode_row_ok:
  assumes "y < img_h img" "img_w img \<le> 65535"
  shows "encode_row img key_rgb y (acc, tot)
       = Inr (acc @ row_bytes img y (row_runs_of img key_rgb y),
              tot + sum_list (map snd (row_runs_of img key_rgb y)))"
proof -
  note inv = row_runs_of_inv(2) [OF assms(1), of key_rgb]
  have "length (row_runs_of img key_rgb y) \<le> 65535"
    using runs_inv_count [OF inv] assms(2) by simp
  then have pack: "struct_pack_H [int (length (row_runs_of img key_rgb y))]
      = Inr (be16 (int (length (row_runs_of img key_rgb y))))"
    by (intro struct_pack_H_single) simp_all
  have fit: "\<forall>(s, l) \<in> set (row_runs_of img key_rgb y). s + l \<le> img_w img"
    using runs_inv_lengths [OF inv] by fastforce
  show ?thesis
    unfolding encode_row_def prod.case row_runs_of_inv(1) [OF assms(1)] bindE_Inr pack
      emit_runs_ok [OF assms fit]
    by (simp add: row_bytes_def)
qed

lemma encode_rows_ok:
  assumes "img_w img \<le> 65535"
  shows "\<forall>y \<in> set ys. y < img_h img \<Longrightarrow>
         for_each (encode_row img key_rgb) ys (acc, tot)
       = Inr (acc @ concat (map (\<lambda>y. row_bytes img y (row_runs_of img key_rgb y)) ys),
              tot + sum_list (map (\<lambda>y. sum_list (map snd (row_runs_of img key_rgb y))) ys))"
proof (induction ys arbitrary: acc tot)
  case Nil
  show ?case by simp
next
  case (Cons y ys)
  from Cons.prems have y: "y < img_h img" and ys: "\<forall>y \<in> set ys. y < img_h img"
    by simp_all
  show ?case
    unfolding for_each.simps encode_row_ok [OF y assms] bindE_Inr Cons.IH [OF ys]
    by simp
qed

lemma rle_ok:
  assumes "img_w img \<le> 65535" "img_h img \<le> 65535" "0 \<le> key565" "key565 \<le> 65535"
  shows "rle img key565 key_rgb
       = Inr (be16 (int (img_w img)) @ be16 (int (img_h img)) @ be16 key565
                @ concat (map (\<lambda>y. row_bytes img y (row_runs_of img key_rgb y)) [0..<img_h img]),
              sum_list (map (\<lambda>y. sum_list (map snd (row_runs_of img key_rgb y))) [0..<img_h img]))"
proof -
  have hdr: "struct_pack_H [int (img_w img), int (img_h img), key565]
      = Inr (be16 (int (img_w img)) @ be16 (int (img_h img)) @ be16 key565)"
    using assms by (intro struct_pack_H_triple) simp_all
  have ys: "\<forall>y \<in> set [0..<img_h img]. y < img_h img"
    by simp
  show ?thesis
    unfolding rle_def hdr bindE_Inr encode_rows_ok [OF assms(1) ys]
    by simp
qed

lemma rle_too_large:
  assumes "65535 < img_w img \<or> 65535 < img_h img"
  shows "rle img key565 key_rgb = Inl StructError"
  using assms by (auto simp: rle_def struct_pack_H_def)

lemma convert_image_eq:
  "convert_image img =
     bindE (rle img 0x8F01 LIME_KEY) (\<lambda>(sprite, run_pixels_total).
       Inr (concat (map (\<lambda>y. concat (map (\<lambda>x.
              case img_px img x y of (r, g, b, a) \<Rightarrow> codec_bytes r g b)
            [0..<img_w img])) [0..<img_h img]), sprite, run_pixels_total))"
  unfolding convert_image_def pick_key_color_eq bindE_Inr prod.case key565_eq full_raw_eq
  by (rule refl)


lemma convert_image_ok:
  assumes "img_w img \<le> 65535" "img_h img \<le> 65535"
  shows "convert_image img
       = Inr (concat (map (\<lambda>y. concat (map (\<lambda>x.
                 case img_px img x y of (r, g, b, a) \<Rightarrow> codec_bytes r g b)
               [0..<img_w img])) [0..<img_h img]),
              be16 (int (img_w img)) @ be16 (int (img_h img)) @ be16 0x8F01
                @ concat (map (\<lambda>y. row_bytes img y (row_runs_of img LIME_KEY y)) [0..<img_h img]),
              sum_list (map (\<lambda>y. sum_list (map snd (row_runs_of img LIME_KEY y))) [0..<img_h img]))"
  unfolding convert_image_eq by (simp add: rle_ok [OF assms])

lemma convert_image_too_large:
  assumes "65535 < img_w img \<or> 65535 < img_h img"
  shows "convert_image img = Inl StructError"
  unfolding convert_image_eq rle_too_large [OF assms] by simp

text \<open>
  Claim C10. An image wider or higher than 65535 makes the header \<open>struct.pack\<close> raise, and
  nothing is produced. For any other image the conversion returns: in every row the number of
  runs, and every run's start and length, are at most 65535.
\<close>

theorem sprite_fields_fit:
  "(65535 < img_w img \<or> 65535 < img_h img \<longrightarrow>
      struct_pack_H [int (img_w img), int (img_h img), 0x8F01] = Inl StructError
      \<and> convert_image img = Inl StructError)
   \<and> (img_w img \<le> 65535 \<and> img_h img \<le> 65535 \<longrightarrow>
        (\<exists>full sprite n. convert_image img = Inr (full, sprite, n))
        \<and> (\<forall>y < img_h img. \<exists>rs. scan_row img LIME_KEY y 0 [] = Inr rs
              \<and> length rs \<le> 65535 \<and> (\<forall>(s, l) \<in> set rs. s \<le> 65535 \<and> l \<le> 65535)))"
proof (intro conjI impI allI)
  assume big: "65535 < img_w img \<or> 65535 < img_h img"
  then show "struct_pack_H [int (img_w img), int (img_h img), 0x8F01] = Inl StructError"
    by (auto simp: struct_pack_H_def)
  from big show "convert_image img = Inl StructError"
    by (rule convert_image_too_large)
next
  assume "img_w img \<le> 65535 \<and> img_h img \<le> 65535"
  then show "\<exists>full sprite n. convert_image img = Inr (full, sprite, n)"
    by (simp add: convert_image_ok)
next
  fix y
  assume fit: "img_w img \<le> 65535 \<and> img_h img \<le> 65535" and y: "y < img_h img"
  note inv = row_runs_of_inv(2) [OF y, of LIME_KEY]
  have "length (row_runs_of img LIME_KEY y) \<le> 65535"
    using runs_inv_count [OF inv] fit by simp
  moreover have "\<forall>(s, l) \<in> set (row_runs_of img LIME_KEY y). s \<le> 65535 \<and> l \<le> 65535"
    using runs_inv_lengths [OF inv] fit by fastforce
  ultimately show "\<exists>rs. scan_row img LIME_KEY y 0 [] = Inr rs
      \<and> length rs \<le> 65535 \<and> (\<forall>(s, l) \<in> set rs. s \<le> 65535 \<and> l \<le> 65535)"
    using row_runs_of_inv(1) [OF y, of LIME_KEY] by blast
qed

theorem sprite_fields_fit_witness:
  "65535 < img_w wide_image
   \<and> convert_image wide_image = Inl StructError
   \<and> img_w scenario_2x2 \<le> 65535 \<and> img_h scenario_2x2 \<le> 65535
   \<and> (\<exists>full sprite n. convert_image scenario_2x2 = Inr (full, sprite, n))"
proof -
  have big: "65535 < img_w wide_image"
    by (simp add: wide_image_def)
  have small: "img_w scenario_2x2 \<le> 65535 \<and> img_h scenario_2x2 \<le> 65535"
    by (simp add: scenario_2x2_def image_of_def)
  show ?thesis
    using big small sprite_fields_fit [of wide_image] sprite_fields_fit [of scenario_2x2]
    by blast
qed

subsection \<open>Transparency\<close>

lemma uint8_eq_numeral: "uint (w :: 8 word) = uint (v :: 8 word) \<longleftrightarrow> w = v"
  by (simp add: word_uint_eq_iff)

lemma transparent_LIME_KEY:
  fixes r g b a :: "8 word"
  shows "transparent LIME_KEY (uint r, uint g, uint b, uint a)
       \<longleftrightarrow> (r = 0x8B \<and> g = 0xE3 \<and> b = 0x08) \<or> a = 0"
proof -
  have "uint r = 139 \<longleftrightarrow> r = 139" "uint g = 227 \<longleftrightarrow> g = 227" "uint b = 8 \<longleftrightarrow> b = 8"
    "uint a = 0 \<longleftrightarrow> a = 0"
    using uint8_eq_numeral [of r 139] uint8_eq_numeral [of g 227] uint8_eq_numeral [of b 8]
      uint8_eq_numeral [of a 0]
    by simp_all
  then show ?thesis
    by (simp add: transparent_def LIME_KEY_def)
qed

lemma transparent_at_LIME_KEY:
  assumes "x < img_w img" "y < img_h img" "img_px img x y = (r, g, b, a)"
  shows "transparent_at img LIME_KEY x y \<longleftrightarrow> (r = 0x8B \<and> g = 0xE3 \<and> b = 0x08) \<or> a = 0"
  using assms by (simp add: transparent_at_def pixels_in_range transparent_LIME_KEY)

text \<open>
  Claim C3. The encoder's key colour is \<open>(0x8B, 0xE3, 0x08)\<close>. Its test holds of a pixel
  exactly when the pixel's RGB is the key colour or its alpha is zero, and a pixel of the
  image lies in no run of its row exactly in that case; so a pixel of the key colour with
  alpha 255 lies in no run.
\<close>

theorem key_color_policy:
  assumes "x < img_w img" "y < img_h img" "img_px img x y = (r, g, b, a)"
  shows "\<exists>key565_be key_rgb rs.
           pick_key_color = Inr (key565_be, key_rgb)
         \<and> key_rgb = (0x8B, 0xE3, 0x08)
         \<and> (transparent key_rgb (uint r, uint g, uint b, uint a)
              \<longleftrightarrow> (r = 0x8B \<and> g = 0xE3 \<and> b = 0x08) \<or> a = 0)
         \<and> scan_row img key_rgb y 0 [] = Inr rs
         \<and> ((\<forall>(s, l) \<in> set rs. \<not> (s \<le> x \<and> x < s + l))
              \<longleftrightarrow> (r = 0x8B \<and> g = 0xE3 \<and> b = 0x08) \<or> a = 0)
         \<and> ((r, g, b, a) = (0x8B, 0xE3, 0x08, 0xFF)
              \<longrightarrow> (\<forall>(s, l) \<in> set rs. \<not> (s \<le> x \<and> x < s + l)))"
proof -
  define rs where "rs = row_runs_of img LIME_KEY y"
  have scan: "scan_row img LIME_KEY y 0 [] = Inr rs"
    and inv: "runs_inv img LIME_KEY y (img_w img) rs"
    unfolding rs_def by (rule row_runs_of_inv [OF assms(2)])+
  have "(\<forall>(s, l) \<in> set rs. \<not> (s \<le> x \<and> x < s + l)) \<longleftrightarrow> transparent_at img LIME_KEY x y"
    using runs_inv_cover [OF inv assms(1)] by fastforce
  then have skip: "(\<forall>(s, l) \<in> set rs. \<not> (s \<le> x \<and> x < s + l))
      \<longleftrightarrow> (r = 0x8B \<and> g = 0xE3 \<and> b = 0x08) \<or> a = 0"
    by (simp only: transparent_at_LIME_KEY [OF assms])
  then have opaque_key: "(r, g, b, a) = (0x8B, 0xE3, 0x08, 0xFF)
      \<longrightarrow> (\<forall>(s, l) \<in> set rs. \<not> (s \<le> x \<and> x < s + l))"
    by simp
  have key: "LIME_KEY = (0x8B, 0xE3, 0x08)"
    by (simp add: LIME_KEY_def)
  show ?thesis
  proof (intro exI conjI)
    show "pick_key_color = Inr ([0x8F, 0x01], LIME_KEY)"
      by (rule pick_key_color_eq)
    show "LIME_KEY = (0x8B, 0xE3, 0x08)"
      by (rule key)
    show "transparent LIME_KEY (uint r, uint g, uint b, uint a)
        \<longleftrightarrow> (r = 0x8B \<and> g = 0xE3 \<and> b = 0x08) \<or> a = 0"
      by (rule transparent_LIME_KEY)
    show "scan_row img LIME_KEY y 0 [] = Inr rs"
      by (rule scan)
    show "(\<forall>(s, l) \<in> set rs. \<not> (s \<le> x \<and> x < s + l))
        \<longleftrightarrow> (r = 0x8B \<and> g = 0xE3 \<and> b = 0x08) \<or> a = 0"
      by (rule skip)
    show "(r, g, b, a) = (0x8B, 0xE3, 0x08, 0xFF)
        \<longrightarrow> (\<forall>(s, l) \<in> set rs. \<not> (s \<le> x \<and> x < s + l))"
      by (rule opaque_key)
  qed
qed

theorem key_color_policy_witness:
  "0 < img_w sample_row \<and> 0 < img_h sample_row
   \<and> img_px sample_row 0 0 = (0x8B, 0xE3, 0x08, 0xFF)
   \<and> (\<exists>rs. scan_row sample_row (0x8B, 0xE3, 0x08) 0 0 [] = Inr rs
         \<and> (\<forall>(s, l) \<in> set rs. \<not> (s \<le> 0 \<and> 0 < s + l)))"
proof -
  have h: "0 < img_w sample_row" "0 < img_h sample_row"
    "img_px sample_row 0 0 = (0x8B, 0xE3, 0x08, 0xFF)"
    by (simp_all add: sample_row_def image_of_def)
  from key_color_policy [OF h]
  obtain rs where "scan_row sample_row (0x8B, 0xE3, 0x08) 0 0 [] = Inr rs"
    "\<forall>(s, l) \<in> set rs. \<not> (s \<le> 0 \<and> 0 < s + l)"
    by blast
  with h show ?thesis
    by blast
qed

subsection \<open>All-transparent images and the 2x2 scenario\<close>

lemma row_runs_of_all_transparent:
  assumes "y < img_h img" "\<forall>x < img_w img. transparent_at img key_rgb x y"
  shows "row_runs_of img key_rgb y = []"
proof (rule ccontr)
  assume "row_runs_of img key_rgb y \<noteq> []"
  then obtain s l where sl: "(s, l) \<in> set (row_runs_of img key_rgb y)"
    by (cases "row_runs_of img key_rgb y") auto
  note inv = row_runs_of_inv(2) [OF assms(1), of key_rgb]
  from runs_inv_lengths [OF inv] sl have "1 \<le> l" "s + l \<le> img_w img"
    by auto
  then have s: "s < img_w img" "s \<le> s \<and> s < s + l"
    by simp_all
  with sl have "\<exists>(s', l') \<in> set (row_runs_of img key_rgb y). s' \<le> s \<and> s < s' + l'"
    by blast
  with runs_inv_cover [OF inv s(1)] have "\<not> transparent_at img key_rgb s y"
    by simp
  with assms(2) s(1) show False
    by simp
qed

text \<open>
  Claim C5, for images that fit the format. If every pixel of an image at most 65535 wide
  and high is key-coloured or has alpha zero, the sprite buffer is the header (width,
  height, 0x8F01) followed by one zero run count per row, \<open>6 + 2 * h\<close> bytes in all, and
  the opaque-pixel count is 0.
\<close>

theorem all_transparent_sprite:
  assumes "img_w img \<le> 65535" "img_h img \<le> 65535"
    and "\<forall>y < img_h img. \<forall>x < img_w img.
           case img_px img x y of (r, g, b, a) \<Rightarrow> (r = 0x8B \<and> g = 0xE3 \<and> b = 0x08) \<or> a = 0"
  shows "\<exists>full sprite. convert_image img = Inr (full, sprite, 0)
         \<and> sprite = be16 (int (img_w img)) @ be16 (int (img_h img)) @ be16 0x8F01
                      @ concat (replicate (img_h img) [0, 0])
         \<and> length sprite = 6 + 2 * img_h img"
proof -
  have t: "transparent_at img LIME_KEY x y" if "y < img_h img" "x < img_w img" for x y
  proof -
    obtain r g b a where p: "img_px img x y = (r, g, b, a)"
      by (cases "img_px img x y")
    with assms(3) that have "(r = 0x8B \<and> g = 0xE3 \<and> b = 0x08) \<or> a = 0"
      by fastforce
    then show ?thesis
      by (simp only: transparent_at_LIME_KEY [OF that(2,1) p])
  qed
  have none: "row_runs_of img LIME_KEY y = []" if "y < img_h img" for y
    using that t by (simp add: row_runs_of_all_transparent)
  have rows: "map (\<lambda>y. row_bytes img y (row_runs_of img LIME_KEY y)) [0..<img_h img]
      = replicate (img_h img) [0, 0]"
    by (rule nth_equalityI) (simp_all add: none row_bytes_def be16_def)
  have count: "sum_list (map (\<lambda>y. sum_list (map snd (row_runs_of img LIME_KEY y))) [0..<img_h img]) = 0"
    by (simp add: none)
  have len: "length (concat (replicate n [0 :: byte, 0])) = 2 * n" for n
    by (induction n) simp_all
  show ?thesis
    unfolding convert_image_ok [OF assms(1,2)] rows count
    by (simp add: be16_def len)
qed

theorem all_transparent_sprite_witness:
  "img_w blank_image \<le> 65535 \<and> img_h blank_image \<le> 65535
   \<and> (\<exists>full. convert_image blank_image
         = Inr (full, [0, 3, 0, 2, 0x8F, 0x01, 0, 0, 0, 0], 0))"
proof -
  have h: "img_w blank_image \<le> 65535" "img_h blank_image \<le> 65535"
    by (simp_all add: blank_image_def)
  have t: "\<forall>y < img_h blank_image. \<forall>x < img_w blank_image.
      case img_px blank_image x y of (r, g, b, a) \<Rightarrow> (r = 0x8B \<and> g = 0xE3 \<and> b = 0x08) \<or> a = 0"
    by (simp add: blank_image_def)
  have "concat (replicate (img_h blank_image) [0 :: byte, 0]) = [0, 0, 0, 0]"
    by (simp add: blank_image_def numeral_2_eq_2)
  then show ?thesis
    using h all_transparent_sprite [OF h t]
    by (simp add: be16_def blank_image_def)
qed

theorem all_transparent_wide_counterexample:
  "img_w wide_image = 65536 \<and> img_h wide_image = 1
   \<and> img_px wide_image = (\<lambda>x y. (0x8B, 0xE3, 0x08, 0xFF))
   \<and> convert_image wide_image = Inl StructError"
proof -
  have "65535 < img_w wide_image \<or> 65535 < img_h wide_image"
    by (simp add: wide_image_def)
  then have "convert_image wide_image = Inl StructError"
    by (rule convert_image_too_large)
  then show ?thesis
    by (simp add: wide_image_def)
qed

text \<open>
  Claim C6. For the 2x2 image \<open>[(139,227,8,255), (255,0,0,255), (139,227,8,255),
  (0,255,0,255)]\<close> each row has the single run \<open>(1, 1)\<close>; the sprite buffer is the header
  (2, 2, 0x8F01), then for row 0 the count 1, the run header (1, 1) and the pixel 0xF800,
  then for row 1 the count 1, the run header (1, 1) and the pixel 0x07E0; two pixels are kept.
\<close>

theorem scenario_2x2_sprite:
  "scan_row scenario_2x2 LIME_KEY 0 0 [] = Inr [(1, 1)]
   \<and> scan_row scenario_2x2 LIME_KEY 1 0 [] = Inr [(1, 1)]
   \<and> rgb888_to_rgb565_be 255 0 0 = Inr (be16 0xF800)
   \<and> rgb888_to_rgb565_be 0 255 0 = Inr (be16 0x07E0)
   \<and> (\<exists>full. convert_image scenario_2x2
         = Inr (full,
                be16 2 @ be16 2 @ be16 0x8F01
                  @ (be16 1 @ (be16 1 @ be16 1 @ be16 0xF800))
                  @ (be16 1 @ (be16 1 @ be16 1 @ be16 0x07E0)),
                2))"
proof -
  have r0: "scan_row scenario_2x2 LIME_KEY 0 0 [] = Inr [(1, 1)]"
    by (simp add: scan_row.simps scan_run.simps scenario_2x2_def image_of_def pixels_def
        transparent_def LIME_KEY_def)
  have r1: "scan_row scenario_2x2 LIME_KEY 1 0 [] = Inr [(1, 1)]"
    by (simp add: scan_row.simps scan_run.simps scenario_2x2_def image_of_def pixels_def
        transparent_def LIME_KEY_def)
  have red: "rgb888_to_rgb565_be 255 0 0 = Inr (be16 0xF800)"
    by (simp add: rgb888_to_rgb565_be_def rgb565_mask_def struct_pack_H_def)
  have green: "rgb888_to_rgb565_be 0 255 0 = Inr (be16 0x07E0)"
    by (simp add: rgb888_to_rgb565_be_def rgb565_mask_def struct_pack_H_def)
  have size: "img_w scenario_2x2 = 2" "img_h scenario_2x2 = 2"
    by (simp_all add: scenario_2x2_def image_of_def)
  have px: "img_px scenario_2x2 (Suc 0) 0 = (255, 0, 0, 255)"
    "img_px scenario_2x2 (Suc 0) (Suc 0) = (0, 255, 0, 255)"
    by (simp_all add: scenario_2x2_def image_of_def)
  have cb: "codec_bytes 255 0 0 = be16 0xF800" "codec_bytes 0 255 0 = be16 0x07E0"
    using red green by (simp_all add: codec_bytes_def)
  have runs: "row_runs_of scenario_2x2 LIME_KEY 0 = [(Suc 0, Suc 0)]"
    "row_runs_of scenario_2x2 LIME_KEY (Suc 0) = [(Suc 0, Suc 0)]"
    using r0 r1 by (simp_all add: row_runs_of_def)
  have upt2: "[0..<2] = [0, 1]"
    by (simp add: upt_rec)
  have conv: "\<exists>full. convert_image scenario_2x2
         = Inr (full,
                be16 2 @ be16 2 @ be16 0x8F01
                  @ (be16 1 @ (be16 1 @ be16 1 @ be16 0xF800))
                  @ (be16 1 @ (be16 1 @ be16 1 @ be16 0x07E0)),
                2)"
    using convert_image_ok [of scenario_2x2]
    by (simp add: size upt2 runs row_bytes_def run_bytes_def px cb)
  from r0 r1 red green conv show ?thesis
    by blast
qed

subsection \<open>Names that match\<close>

text \<open>
  Every name that ends in \<open>_<W>x<H>_rgb565_be.raw\<close>, with \<open>W\<close> and \<open>H\<close> non-empty
  strings of decimal digits, matches, and the groups are \<open>W\<close> and \<open>H\<close>.
\<close>

lemma strip_ci_tail:
  "strip_ci (rev ''_rgb565_be.raw'') (rev ''_rgb565_be.raw'' @ rest) = Some rest"
  by (simp add: lower_def)

lemma not_digit_x: "\<not> is_digit CHR ''x''"
  by (simp add: is_digit_def)

lemma not_digit_underscore: "\<not> is_digit CHR ''_''"
  by (simp add: is_digit_def)

lemma span_until:
  assumes "\<forall>x \<in> set xs. P x" "\<not> P c"
  shows "takeWhile P (xs @ c # rest) = xs" and "dropWhile P (xs @ c # rest) = c # rest"
  using assms by (induction xs) simp_all

lemma takeWhile_digits:
  assumes "\<forall>c \<in> set ds. is_digit c" "\<not> is_digit c"
  shows "takeWhile is_digit (rev ds @ c # rest) = rev ds"
    and "dropWhile is_digit (rev ds @ c # rest) = c # rest"
  using assms by (simp_all add: span_until)

lemma RAW_RE_at_end_pattern:
  assumes "g1 \<noteq> []" "\<forall>c \<in> set g1. is_digit c" "g2 \<noteq> []" "\<forall>c \<in> set g2. is_digit c"
  shows "RAW_RE_at_end (pre @ ''_'' @ g1 @ ''x'' @ g2 @ ''_rgb565_be.raw'') = Some (g1, g2)"
proof -
  have r: "rev (pre @ ''_'' @ g1 @ ''x'' @ g2 @ ''_rgb565_be.raw'')
      = rev ''_rgb565_be.raw'' @ (rev g2 @ CHR ''x'' # (rev g1 @ CHR ''_'' # rev pre))"
    by simp
  have x: "strip_ci ''x'' (CHR ''x'' # rest) = Some rest" for rest
    by (simp add: lower_def)
  have u: "strip_ci ''_'' (CHR ''_'' # rest) = Some rest" for rest
    by (simp add: lower_def)
  show ?thesis
    unfolding RAW_RE_at_end_def r strip_ci_tail option.case Let_def
      takeWhile_digits [OF assms(4) not_digit_x] x
      takeWhile_digits [OF assms(2) not_digit_underscore] u
    using assms(1,3) by simp
qed

lemma size_from_name_pattern:
  assumes "g1 \<noteq> []" "\<forall>c \<in> set g1. is_digit c" "g2 \<noteq> []" "\<forall>c \<in> set g2. is_digit c"
    and "CHR ''/'' \<notin> set pre"
  shows "size_from_name (dir @ ''/'' @ pre @ ''_'' @ g1 @ ''x'' @ g2 @ ''_rgb565_be.raw'')
       = Some (int_of_digits g1, int_of_digits g2)"
proof -
  have d: "CHR ''/'' \<notin> set g1" "CHR ''/'' \<notin> set g2"
    using assms(2,4) by (auto simp: is_digit_def)
  have "rev (dir @ ''/'' @ pre @ ''_'' @ g1 @ ''x'' @ g2 @ ''_rgb565_be.raw'')
      = rev (pre @ ''_'' @ g1 @ ''x'' @ g2 @ ''_rgb565_be.raw'') @ CHR ''/'' # rev dir"
    by simp
  moreover have "\<forall>c \<in> set (rev (pre @ ''_'' @ g1 @ ''x'' @ g2 @ ''_rgb565_be.raw'')). c \<noteq> CHR ''/''"
    using assms(5) d by auto
  ultimately have n: "path_name (dir @ ''/'' @ pre @ ''_'' @ g1 @ ''x'' @ g2 @ ''_rgb565_be.raw'')
      = pre @ ''_'' @ g1 @ ''x'' @ g2 @ ''_rgb565_be.raw''"
    unfolding path_name_def by (simp only: span_until(1) rev_rev_ident simp_thms)
  show ?thesis
    unfolding size_from_name_def RAW_RE_search_def n RAW_RE_at_end_pattern [OF assms(1-4)]
    by simp
qed

subsection \<open>The compression stage\<close>

lemma size_from_name_foo: "size_from_name ''foo_4x4_rgb565_be.raw'' = Some (4, 4)"
  by (simp add: size_from_name_def RAW_RE_search_def RAW_RE_at_end_def path_name_def
      is_digit_def lower_def int_of_digits_def Let_def)

lemma size_from_name_bar: "size_from_name ''bar_1x1_rgb565_be.raw'' = Some (1, 1)"
  by (simp add: size_from_name_def RAW_RE_search_def RAW_RE_at_end_def path_name_def
      is_digit_def lower_def int_of_digits_def Let_def)

lemma size_from_name_notes: "size_from_name ''notes.raw'' = None"
  by (simp add: size_from_name_def RAW_RE_search_def RAW_RE_at_end_def path_name_def
      is_digit_def lower_def int_of_digits_def Let_def)

lemma trace_emit [simp]: "trace (emit e wd) = trace wd @ [e]"
  by (simp add: emit_def)

lemma files_emit [simp]: "files (emit e wd) = files wd"
  by (simp add: emit_def)

lemma compress_one_no_match:
  assumes "size_from_name p = None"
  shows "compress_one zc p lvl f ov wd = (Inr False, emit (Print (SkipName (path_name p))) wd)"
  using assms by (simp add: compress_one_def)

lemma compress_one_unreadable:
  assumes "size_from_name p = Some (w, h)" "files wd p = None"
  shows "compress_one zc p lvl f ov wd = (Inl OSError, emit (ReadBytes p) wd)"
  using assms by (simp add: compress_one_def read_bytes_def)

lemma compress_one_mismatch:
  assumes "size_from_name p = Some (w, h)" "files wd p = Some data" "length data \<noteq> w * h * 2"
  shows "compress_one zc p lvl False ov wd
       = (Inr False,
          emit (Print (ErrorSize (path_name p) (length data) (w * h * 2) w h))
            (emit (ReadBytes p) wd))"
  using assms by (simp add: compress_one_def read_bytes_def)

lemma compress_one_exists:
  assumes "size_from_name p = Some (w, h)" "files wd p = Some data"
    "length data = w * h * 2 \<or> f" "files wd (p @ ''.zlib'') \<noteq> None"
  shows "compress_one zc p lvl f False wd
       = (Inr True,
          emit (Print (SkipExists (path_name (p @ ''.zlib''))))
            (emit (Exists (p @ ''.zlib'')) (emit (ReadBytes p) wd)))"
  using assms by (auto simp: compress_one_def read_bytes_def exists_file_def Let_def)

lemma compress_one_writes:
  assumes "size_from_name p = Some (w, h)" "files wd p = Some data"
    "length data = w * h * 2 \<or> f" "files wd (p @ ''.zlib'') = None \<or> ov"
    "- 1 \<le> lvl" "lvl \<le> 9"
  shows "compress_one zc p lvl f ov wd
       = (Inr True,
          emit (Print (Ok (path_name p) (path_name (p @ ''.zlib''))
                         (length data) (length (zc lvl data))))
            (write_bytes (p @ ''.zlib'') (zc lvl data)
               (emit (Exists (p @ ''.zlib'')) (emit (ReadBytes p) wd))))"
  using assms
  by (auto simp: compress_one_def read_bytes_def exists_file_def zlib_compress_def Let_def)

lemma compress_one_bad_level:
  assumes "size_from_name p = Some (w, h)" "files wd p = Some data"
    "length data = w * h * 2 \<or> f" "files wd (p @ ''.zlib'') = None \<or> ov"
    "\<not> (- 1 \<le> lvl \<and> lvl \<le> 9)"
  shows "compress_one zc p lvl f ov wd
       = (Inl ZlibError, emit (Exists (p @ ''.zlib'')) (emit (ReadBytes p) wd))"
  using assms
  by (auto simp: compress_one_def read_bytes_def exists_file_def zlib_compress_def Let_def)

text \<open>
  Every call of \<open>compress_one\<close> only appends to the trace; it prints one failure diagnostic
  when it returns \<open>False\<close> and none otherwise.
\<close>

lemma compress_one_trace:
  assumes "compress_one zc p lvl f ov wd = (r, wd')"
  shows "\<exists>es. trace wd' = trace wd @ es
            \<and> length (filter failure_msg es) = (if r = Inr False then 1 else 0)
            \<and> (size_from_name p = None \<longrightarrow> Print (SkipName (path_name p)) \<in> set es)"
proof (cases "size_from_name p")
  case None
  with assms show ?thesis
    by (auto simp: compress_one_no_match)
next
  case (Some wh)
  obtain w h where wh: "wh = (w, h)"
    by (cases wh)
  note name = Some [unfolded wh]
  show ?thesis
  proof (cases "files wd p")
    case None
    with assms name show ?thesis
      by (auto simp: compress_one_unreadable)
  next
    case (Some data)
    note data = this
    show ?thesis
    proof (cases "length data \<noteq> w * h * 2 \<and> \<not> f")
      case True
      then have "f = False" by simp
      with assms True name data show ?thesis
        by (auto simp: compress_one_mismatch)
    next
      case False
      then have size: "length data = w * h * 2 \<or> f" by blast
      show ?thesis
      proof (cases "files wd (p @ ''.zlib'') \<noteq> None \<and> \<not> ov")
        case True
        then have "ov = False" by simp
        with assms True name data size show ?thesis
          by (auto simp: compress_one_exists)
      next
        case False
        then have free: "files wd (p @ ''.zlib'') = None \<or> ov" by blast
        show ?thesis
        proof (cases "- 1 \<le> lvl \<and> lvl \<le> 9")
          case True
          with assms name data size free show ?thesis
            by (auto simp: compress_one_writes write_bytes_def)
        next
          case False
          with assms name data size free show ?thesis
            by (auto simp: compress_one_bad_level)
        qed
      qed
    qed
  qed
qed

lemma batch_trace:
  "batch zc a fs (ok, wd) = (ok', wd') \<Longrightarrow>
   \<exists>es. trace wd' = trace wd @ es
       \<and> ok' + length (filter failure_msg es) = ok + length fs
       \<and> (\<forall>p \<in> set fs. size_from_name p = None \<longrightarrow> Print (SkipName (path_name p)) \<in> set es)"
proof (induction fs arbitrary: ok wd)
  case Nil
  then show ?case by simp
next
  case (Cons p fs)
  obtain r wd1 where c: "compress_one zc p (level a) (force a) (overwrite a) wd = (r, wd1)"
    by (cases "compress_one zc p (level a) (force a) (overwrite a) wd")
  from compress_one_trace [OF c]
  obtain es1 where es1: "trace wd1 = trace wd @ es1"
    "length (filter failure_msg es1) = (if r = Inr False then 1 else 0)"
    "size_from_name p = None \<longrightarrow> Print (SkipName (path_name p)) \<in> set es1"
    by (elim exE conjE) (rule that)
  show ?case
  proof (cases r)
    case (Inr b)
    with Cons.prems c have "batch zc a fs (if b then ok + 1 else ok, wd1) = (ok', wd')"
      by simp
    from Cons.IH [OF this]
    obtain es where es: "trace wd' = trace wd1 @ es"
      "ok' + length (filter failure_msg es) = (if b then ok + 1 else ok) + length fs"
      "\<forall>p \<in> set fs. size_from_name p = None \<longrightarrow> Print (SkipName (path_name p)) \<in> set es"
      by (elim exE conjE) (rule that)
    have "trace wd' = trace wd @ (es1 @ es)"
      using es1(1) es(1) by simp
    moreover have "ok' + length (filter failure_msg (es1 @ es)) = ok + length (p # fs)"
      using es1(2) es(2) Inr by (cases b) simp_all
    moreover have "\<forall>q \<in> set (p # fs). size_from_name q = None
        \<longrightarrow> Print (SkipName (path_name q)) \<in> set (es1 @ es)"
      using es1(3) es(3) by auto
    ultimately show ?thesis by (intro exI conjI)
  next
    case (Inl e)
    with Cons.prems c
    have "batch zc a fs (ok, emit (Print (Fail (path_name p) e)) wd1) = (ok', wd')"
      by simp
    from Cons.IH [OF this]
    obtain es where es: "trace wd' = trace (emit (Print (Fail (path_name p) e)) wd1) @ es"
      "ok' + length (filter failure_msg es) = ok + length fs"
      "\<forall>p \<in> set fs. size_from_name p = None \<longrightarrow> Print (SkipName (path_name p)) \<in> set es"
      by (elim exE conjE) (rule that)
    have "trace wd' = trace wd @ (es1 @ Print (Fail (path_name p) e) # es)"
      using es1(1) es(1) by simp
    moreover have "ok' + length (filter failure_msg (es1 @ Print (Fail (path_name p) e) # es))
        = ok + length (p # fs)"
      using es1(2) es(2) Inl by simp
    moreover have "\<forall>q \<in> set (p # fs). size_from_name q = None
        \<longrightarrow> Print (SkipName (path_name q)) \<in> set (es1 @ Print (Fail (path_name p) e) # es)"
      using es1(3) es(3) by auto
    ultimately show ?thesis by (intro exI conjI)
  qed
qed

lemma main_bad_level:
  assumes "level a < 0 \<or> 9 < level a"
  shows "main zc found a wd = (2, emit (Print LevelRange) wd)"
  using assms by (auto simp: main_def)

text \<open>With an accepted level and at least one file: the shape of the run of \<open>main\<close>.\<close>

lemma main_batch:
  assumes "0 \<le> level a" "level a \<le> 9" "found (recursive a) \<noteq> []"
  shows "\<exists>es ok. trace (snd (main zc found a wd))
                = trace wd @ Glob (recursive a) # es @ [Print (Done ok (length (found (recursive a))))]
            \<and> ok + length (filter failure_msg es) = length (found (recursive a))
            \<and> fst (main zc found a wd) = (if ok = length (found (recursive a)) then 0 else 1)
            \<and> (\<forall>p \<in> set (found (recursive a)). size_from_name p = None
                  \<longrightarrow> Print (SkipName (path_name p)) \<in> set es)"
proof -
  obtain ok wd2 where b: "batch zc a (found (recursive a)) (0, emit (Glob (recursive a)) wd) = (ok, wd2)"
    by (cases "batch zc a (found (recursive a)) (0, emit (Glob (recursive a)) wd)")
  from batch_trace [OF b]
  obtain es where es: "trace wd2 = trace (emit (Glob (recursive a)) wd) @ es"
    "ok + length (filter failure_msg es) = 0 + length (found (recursive a))"
    "\<forall>p \<in> set (found (recursive a)). size_from_name p = None
        \<longrightarrow> Print (SkipName (path_name p)) \<in> set es"
    by (elim exE conjE) (rule that)
  have m: "main zc found a wd
      = (if ok = length (found (recursive a)) then 0 else 1,
         emit (Print (Done ok (length (found (recursive a))))) wd2)"
    using assms b by (simp add: main_def Let_def)
  show ?thesis
    unfolding m using es by auto
qed

lemma main_no_files:
  assumes "0 \<le> level a" "level a \<le> 9" "found (recursive a) = []"
  shows "main zc found a wd = (1, emit (Print NoFiles) (emit (Glob (recursive a)) wd))"
  using assms by (simp add: main_def)

text \<open>
  Claim C7. A level outside \<open>0..9\<close> ends \<open>main\<close> with exit status 2; all it has done is
  print the message: no listing, no read, no write. With a level in \<open>0..9\<close> the check is
  passed: the next thing the script does is list the directory, and the exit status is not 2.
\<close>

theorem level_check_fail_fast:
  "(level a < 0 \<or> 9 < level a \<longrightarrow>
      main zc found a wd = (2, wd\<lparr>trace := trace wd @ [Print LevelRange]\<rparr>))
   \<and> (0 \<le> level a \<and> level a \<le> 9 \<longrightarrow>
        fst (main zc found a wd) \<noteq> 2
        \<and> (\<exists>es. trace (snd (main zc found a wd)) = trace wd @ Glob (recursive a) # es))"
proof (intro conjI impI)
  assume "level a < 0 \<or> 9 < level a"
  then show "main zc found a wd = (2, wd\<lparr>trace := trace wd @ [Print LevelRange]\<rparr>)"
    by (simp add: main_bad_level emit_def)
next
  assume ok: "0 \<le> level a \<and> level a \<le> 9"
  show "fst (main zc found a wd) \<noteq> 2"
  proof (cases "found (recursive a) = []")
    case True
    with ok show ?thesis by (simp add: main_no_files)
  next
    case False
    with ok main_batch [of a found zc wd] show ?thesis by (auto split: if_splits)
  qed
  show "\<exists>es. trace (snd (main zc found a wd)) = trace wd @ Glob (recursive a) # es"
  proof (cases "found (recursive a) = []")
    case True
    with ok show ?thesis by (simp add: main_no_files)
  next
    case False
    with ok main_batch [of a found zc wd] show ?thesis by auto
  qed
qed

theorem level_check_fail_fast_witness:
  "9 < level (sample_args\<lparr>level := 10\<rparr>)
   \<and> main store_only (\<lambda>r. [''foo_4x4_rgb565_be.raw'']) (sample_args\<lparr>level := 10\<rparr>) sample_world
       = (2, sample_world\<lparr>trace := [Print LevelRange]\<rparr>)
   \<and> 0 \<le> level sample_args \<and> level sample_args \<le> 9
   \<and> fst (main store_only (\<lambda>r. [''foo_4x4_rgb565_be.raw'']) sample_args sample_world) \<noteq> 2"
proof -
  have bad: "level (sample_args\<lparr>level := 10\<rparr>) < 0 \<or> 9 < level (sample_args\<lparr>level := 10\<rparr>)"
    by simp
  have good: "0 \<le> level sample_args \<and> level sample_args \<le> 9"
    by (simp add: sample_args_def)
  have "trace sample_world = []"
    by (simp add: sample_world_def)
  then show ?thesis
    using bad good
      level_check_fail_fast [of "sample_args\<lparr>level := 10\<rparr>" store_only
        "\<lambda>r. [''foo_4x4_rgb565_be.raw'']" sample_world]
      level_check_fail_fast [of sample_args store_only
        "\<lambda>r. [''foo_4x4_rgb565_be.raw'']" sample_world]
    by simp
qed

text \<open>
  Claim C8, with the existing-output guard. A file whose name matches and whose length is
  not \<open>W * H * 2\<close>: without \<open>--force\<close> it is read, the size error is printed, \<open>False\<close>
  is returned and nothing is written. With \<open>--force\<close> the size check is bypassed: the file
  is compressed and written when no output exists yet or \<open>--overwrite\<close> is given (at a level
  \<open>main\<close> accepts); when the output exists and \<open>--overwrite\<close> is not given, it is reported
  as existing and left as it is.
\<close>

theorem size_mismatch_rejected:
  assumes "size_from_name p = Some (w, h)" "files wd p = Some data" "length data \<noteq> w * h * 2"
  shows "compress_one zc p lvl False ov wd
           = (Inr False,
              wd\<lparr>trace := trace wd @ [ReadBytes p,
                  Print (ErrorSize (path_name p) (length data) (w * h * 2) w h)]\<rparr>)
       \<and> ((files wd (p @ ''.zlib'') = None \<or> ov) \<and> 0 \<le> lvl \<and> lvl \<le> 9 \<longrightarrow>
            compress_one zc p lvl True ov wd
              = (Inr True,
                 wd\<lparr>files := (files wd)(p @ ''.zlib'' \<mapsto> zc lvl data),
                    trace := trace wd @ [ReadBytes p, Exists (p @ ''.zlib''),
                      WriteBytes (p @ ''.zlib''),
                      Print (Ok (path_name p) (path_name (p @ ''.zlib''))
                               (length data) (length (zc lvl data)))]\<rparr>))
       \<and> (files wd (p @ ''.zlib'') \<noteq> None \<longrightarrow>
            compress_one zc p lvl True False wd
              = (Inr True,
                 wd\<lparr>trace := trace wd @ [ReadBytes p, Exists (p @ ''.zlib''),
                      Print (SkipExists (path_name (p @ ''.zlib'')))]\<rparr>))"
proof (intro conjI impI)
  show "compress_one zc p lvl False ov wd
      = (Inr False,
         wd\<lparr>trace := trace wd @ [ReadBytes p,
             Print (ErrorSize (path_name p) (length data) (w * h * 2) w h)]\<rparr>)"
    by (simp add: compress_one_mismatch [OF assms] emit_def)
next
  assume "(files wd (p @ ''.zlib'') = None \<or> ov) \<and> 0 \<le> lvl \<and> lvl \<le> 9"
  then have "files wd (p @ ''.zlib'') = None \<or> ov" "- 1 \<le> lvl" "lvl \<le> 9"
    by simp_all
  then show "compress_one zc p lvl True ov wd
      = (Inr True,
         wd\<lparr>files := (files wd)(p @ ''.zlib'' \<mapsto> zc lvl data),
            trace := trace wd @ [ReadBytes p, Exists (p @ ''.zlib''),
              WriteBytes (p @ ''.zlib''),
              Print (Ok (path_name p) (path_name (p @ ''.zlib''))
                       (length data) (length (zc lvl data)))]\<rparr>)"
    using compress_one_writes [OF assms(1,2), of True ov lvl zc]
    by (simp add: emit_def write_bytes_def)
next
  assume "files wd (p @ ''.zlib'') \<noteq> None"
  then show "compress_one zc p lvl True False wd
      = (Inr True,
         wd\<lparr>trace := trace wd @ [ReadBytes p, Exists (p @ ''.zlib''),
              Print (SkipExists (path_name (p @ ''.zlib'')))]\<rparr>)"
    using compress_one_exists [OF assms(1,2), of True zc lvl]
    by (simp add: emit_def)
qed

lemma sample_world_foo:
  "files sample_world ''foo_4x4_rgb565_be.raw'' = Some (replicate 31 7)"
  "files sample_world ''foo_4x4_rgb565_be.raw.zlib'' = Some [9]"
  by (simp_all add: sample_world_def)

theorem size_mismatch_rejected_witness:
  "size_from_name ''foo_4x4_rgb565_be.raw'' = Some (4, 4)
   \<and> files sample_world ''foo_4x4_rgb565_be.raw'' = Some (replicate 31 7)
   \<and> length (replicate 31 (7 :: byte)) \<noteq> 4 * 4 * 2
   \<and> compress_one store_only ''foo_4x4_rgb565_be.raw'' 9 False False sample_world
       = (Inr False,
          sample_world\<lparr>trace := [ReadBytes ''foo_4x4_rgb565_be.raw'',
            Print (ErrorSize ''foo_4x4_rgb565_be.raw'' 31 32 4 4)]\<rparr>)
   \<and> compress_one store_only ''foo_4x4_rgb565_be.raw'' 9 True True sample_world
       = (Inr True,
          sample_world\<lparr>files := (files sample_world)
               (''foo_4x4_rgb565_be.raw.zlib'' \<mapsto> replicate 31 7),
            trace := [ReadBytes ''foo_4x4_rgb565_be.raw'',
              Exists ''foo_4x4_rgb565_be.raw.zlib'', WriteBytes ''foo_4x4_rgb565_be.raw.zlib'',
              Print (Ok ''foo_4x4_rgb565_be.raw'' ''foo_4x4_rgb565_be.raw.zlib'' 31 31)]\<rparr>)"
proof -
  have len: "length (replicate 31 (7 :: byte)) \<noteq> 4 * 4 * 2"
    by simp
  have t: "trace sample_world = []"
    by (simp add: sample_world_def)
  have n: "path_name ''foo_4x4_rgb565_be.raw'' = ''foo_4x4_rgb565_be.raw''"
    "path_name ''foo_4x4_rgb565_be.raw.zlib'' = ''foo_4x4_rgb565_be.raw.zlib''"
    by (simp_all add: path_name_def)
  show ?thesis
    using size_from_name_foo sample_world_foo(1) len
      size_mismatch_rejected [OF size_from_name_foo sample_world_foo(1) len,
        of store_only 9 False]
      size_mismatch_rejected [OF size_from_name_foo sample_world_foo(1) len,
        of store_only 9 True]
    by (simp add: t n store_only_def)
qed

theorem forced_existing_output_counterexample:
  "files sample_world ''foo_4x4_rgb565_be.raw.zlib'' = Some [9]
   \<and> compress_one store_only ''foo_4x4_rgb565_be.raw'' 9 True False sample_world
       = (Inr True,
          sample_world\<lparr>trace := [ReadBytes ''foo_4x4_rgb565_be.raw'',
            Exists ''foo_4x4_rgb565_be.raw.zlib'',
            Print (SkipExists ''foo_4x4_rgb565_be.raw.zlib'')]\<rparr>)"
proof -
  have t: "trace sample_world = []"
    by (simp add: sample_world_def)
  have n: "path_name ''foo_4x4_rgb565_be.raw.zlib'' = ''foo_4x4_rgb565_be.raw.zlib''"
    by (simp add: path_name_def)
  have "compress_one store_only ''foo_4x4_rgb565_be.raw'' 9 True False sample_world
      = (Inr True,
         emit (Print (SkipExists (path_name (''foo_4x4_rgb565_be.raw'' @ ''.zlib''))))
           (emit (Exists (''foo_4x4_rgb565_be.raw'' @ ''.zlib''))
              (emit (ReadBytes ''foo_4x4_rgb565_be.raw'') sample_world)))"
    by (rule compress_one_exists [OF size_from_name_foo sample_world_foo(1)])
      (simp_all add: sample_world_foo(2))
  then show ?thesis
    using sample_world_foo(2) by (simp add: emit_def t n)
qed

subsection \<open>Batches\<close>

text \<open>
  Claim C9, with the exit status the script gives. A file whose name does not match is
  skipped with the \<open>skip\<close> diagnostic and nothing else happens (no read, no write), but
  \<open>compress_one\<close> returns \<open>False\<close> for it. An existing output without \<open>--overwrite\<close> is
  reported, left as it is, and \<open>True\<close> is returned. For a batch of at least one file at an
  accepted level the exit status is 0 exactly when no file got a failure diagnostic (name
  skip, size error or exception) and 1 otherwise; so a batch with a file whose name does
  not match exits with 1.
\<close>

theorem batch_exit_status:
  "(size_from_name p = None \<longrightarrow>
      compress_one zc p lvl f ov wd
        = (Inr False, wd\<lparr>trace := trace wd @ [Print (SkipName (path_name p))]\<rparr>))
   \<and> (size_from_name p = Some (w, h) \<and> files wd p = Some data
        \<and> (length data = w * h * 2 \<or> f) \<and> files wd (p @ ''.zlib'') \<noteq> None \<longrightarrow>
        compress_one zc p lvl f False wd
          = (Inr True,
             wd\<lparr>trace := trace wd @ [ReadBytes p, Exists (p @ ''.zlib''),
                  Print (SkipExists (path_name (p @ ''.zlib'')))]\<rparr>))
   \<and> (0 \<le> level a \<and> level a \<le> 9 \<and> found (recursive a) \<noteq> [] \<longrightarrow>
        (\<exists>es ok. trace (snd (main zc found a wd))
                    = trace wd @ Glob (recursive a) # es
                        @ [Print (Done ok (length (found (recursive a))))]
           \<and> (fst (main zc found a wd) = 0 \<longleftrightarrow> filter failure_msg es = [])
           \<and> (fst (main zc found a wd) = 0 \<or> fst (main zc found a wd) = 1)
           \<and> ((\<exists>q \<in> set (found (recursive a)). size_from_name q = None)
                \<longrightarrow> fst (main zc found a wd) = 1)))"
proof (intro conjI impI)
  assume "size_from_name p = None"
  then show "compress_one zc p lvl f ov wd
      = (Inr False, wd\<lparr>trace := trace wd @ [Print (SkipName (path_name p))]\<rparr>)"
    by (simp add: compress_one_no_match emit_def)
next
  assume "size_from_name p = Some (w, h) \<and> files wd p = Some data
      \<and> (length data = w * h * 2 \<or> f) \<and> files wd (p @ ''.zlib'') \<noteq> None"
  then have "size_from_name p = Some (w, h)" "files wd p = Some data"
    "length data = w * h * 2 \<or> f" "files wd (p @ ''.zlib'') \<noteq> None"
    by simp_all
  then have "compress_one zc p lvl f False wd
       = (Inr True,
          emit (Print (SkipExists (path_name (p @ ''.zlib''))))
            (emit (Exists (p @ ''.zlib'')) (emit (ReadBytes p) wd)))"
    by (rule compress_one_exists)
  then show "compress_one zc p lvl f False wd
      = (Inr True,
         wd\<lparr>trace := trace wd @ [ReadBytes p, Exists (p @ ''.zlib''),
              Print (SkipExists (path_name (p @ ''.zlib'')))]\<rparr>)"
    by (simp add: emit_def)
next
  assume "0 \<le> level a \<and> level a \<le> 9 \<and> found (recursive a) \<noteq> []"
  then have a: "0 \<le> level a" "level a \<le> 9" "found (recursive a) \<noteq> []"
    by simp_all
  from main_batch [of a found zc wd, OF a]
  obtain es ok where tr: "trace (snd (main zc found a wd))
        = trace wd @ Glob (recursive a) # es @ [Print (Done ok (length (found (recursive a))))]"
    and cnt: "ok + length (filter failure_msg es) = length (found (recursive a))"
    and st: "fst (main zc found a wd) = (if ok = length (found (recursive a)) then 0 else 1)"
    and skip: "\<forall>p \<in> set (found (recursive a)). size_from_name p = None
        \<longrightarrow> Print (SkipName (path_name p)) \<in> set es"
    by (elim exE conjE) (rule that)
  have zero: "fst (main zc found a wd) = 0 \<longleftrightarrow> filter failure_msg es = []"
    using cnt st by (cases "ok = length (found (recursive a))") auto
  have either: "fst (main zc found a wd) = 0 \<or> fst (main zc found a wd) = 1"
    using st by simp
  have one: "(\<exists>q \<in> set (found (recursive a)). size_from_name q = None)
      \<longrightarrow> fst (main zc found a wd) = 1"
  proof
    assume "\<exists>q \<in> set (found (recursive a)). size_from_name q = None"
    then obtain q where "q \<in> set (found (recursive a))" "size_from_name q = None"
      by blast
    with skip have "Print (SkipName (path_name q)) \<in> set es"
      by blast
    then have "Print (SkipName (path_name q)) \<in> set (filter failure_msg es)"
      by simp
    then have "filter failure_msg es \<noteq> []"
      by (metis empty_iff list.set(1))
    with zero either show "fst (main zc found a wd) = 1"
      by blast
  qed
  show "\<exists>es ok. trace (snd (main zc found a wd))
                    = trace wd @ Glob (recursive a) # es
                        @ [Print (Done ok (length (found (recursive a))))]
           \<and> (fst (main zc found a wd) = 0 \<longleftrightarrow> filter failure_msg es = [])
           \<and> (fst (main zc found a wd) = 0 \<or> fst (main zc found a wd) = 1)
           \<and> ((\<exists>q \<in> set (found (recursive a)). size_from_name q = None)
                \<longrightarrow> fst (main zc found a wd) = 1)"
    using tr zero either one by (intro exI conjI)
qed

lemma sample_world_bar:
  "files sample_world ''bar_1x1_rgb565_be.raw'' = Some [1, 2]"
  "files sample_world ''bar_1x1_rgb565_be.raw.zlib'' = None"
  by (simp_all add: sample_world_def)

theorem batch_exit_status_witness:
  "size_from_name ''notes.raw'' = None
   \<and> compress_one store_only ''notes.raw'' 9 False False sample_world
       = (Inr False, sample_world\<lparr>trace := [Print (SkipName ''notes.raw'')]\<rparr>)
   \<and> size_from_name ''foo_4x4_rgb565_be.raw'' = Some (4, 4)
   \<and> files sample_world ''foo_4x4_rgb565_be.raw'' = Some (replicate 31 7)
   \<and> files sample_world ''foo_4x4_rgb565_be.raw.zlib'' = Some [9]
   \<and> compress_one store_only ''foo_4x4_rgb565_be.raw'' 9 True False sample_world
       = (Inr True,
          sample_world\<lparr>trace := [ReadBytes ''foo_4x4_rgb565_be.raw'',
            Exists ''foo_4x4_rgb565_be.raw.zlib'',
            Print (SkipExists ''foo_4x4_rgb565_be.raw.zlib'')]\<rparr>)
   \<and> 0 \<le> level sample_args \<and> level sample_args \<le> 9
   \<and> fst (main store_only (\<lambda>r. [''bar_1x1_rgb565_be.raw'', ''notes.raw'']) sample_args
            sample_world) = 1"
proof -
  have t: "trace sample_world = []"
    by (simp add: sample_world_def)
  have n: "path_name ''notes.raw'' = ''notes.raw''"
    "path_name ''foo_4x4_rgb565_be.raw.zlib'' = ''foo_4x4_rgb565_be.raw.zlib''"
    by (simp_all add: path_name_def)
  have lvl: "0 \<le> level sample_args" "level sample_args \<le> 9"
    by (simp_all add: sample_args_def)
  have skip: "compress_one store_only ''notes.raw'' 9 False False sample_world
       = (Inr False, sample_world\<lparr>trace := [Print (SkipName ''notes.raw'')]\<rparr>)"
    using size_from_name_notes
      batch_exit_status [of "''notes.raw''" store_only 9 False False sample_world]
    by (simp add: t n)
  have ex: "compress_one store_only ''foo_4x4_rgb565_be.raw'' 9 True False sample_world
       = (Inr True,
          sample_world\<lparr>trace := [ReadBytes ''foo_4x4_rgb565_be.raw'',
            Exists ''foo_4x4_rgb565_be.raw.zlib'',
            Print (SkipExists ''foo_4x4_rgb565_be.raw.zlib'')]\<rparr>)"
    using size_from_name_foo sample_world_foo
      batch_exit_status [of "''foo_4x4_rgb565_be.raw''" store_only 9 True False sample_world
        4 4 "replicate 31 7"]
    by (simp add: t n)
  have st: "fst (main store_only (\<lambda>r. [''bar_1x1_rgb565_be.raw'', ''notes.raw'']) sample_args
            sample_world) = 1"
  proof -
    have "0 \<le> level sample_args \<and> level sample_args \<le> 9
        \<and> (\<lambda>r. [''bar_1x1_rgb565_be.raw'', ''notes.raw'']) (recursive sample_args) \<noteq> []"
      using lvl by simp
    from batch_exit_status [where a = sample_args and zc = store_only and wd = sample_world
        and found = "\<lambda>r. [''bar_1x1_rgb565_be.raw'', ''notes.raw'']",
        THEN conjunct2, THEN conjunct2, THEN mp, OF this]
    have "(\<exists>q \<in> set [''bar_1x1_rgb565_be.raw'', ''notes.raw'']. size_from_name q = None)
        \<longrightarrow> fst (main store_only (\<lambda>r. [''bar_1x1_rgb565_be.raw'', ''notes.raw''])
              sample_args sample_world) = 1"
      by (elim exE conjE)
    with size_from_name_notes show ?thesis
      by simp
  qed
  from size_from_name_notes skip size_from_name_foo sample_world_foo ex lvl st
  show ?thesis by simp
qed

theorem batch_exit_status_counterexample:
  "main store_only (\<lambda>r. [''notes.raw'']) sample_args sample_world
     = (1, sample_world\<lparr>trace := [Glob False, Print (SkipName ''notes.raw''),
                                   Print (Done 0 1)]\<rparr>)
   \<and> main store_only (\<lambda>r. [''foo_4x4_rgb565_be.raw'']) sample_args sample_world
     = (1, sample_world\<lparr>trace := [Glob False, ReadBytes ''foo_4x4_rgb565_be.raw'',
                                   Print (ErrorSize ''foo_4x4_rgb565_be.raw'' 31 32 4 4),
                                   Print (Done 0 1)]\<rparr>)
   \<and> main store_only (\<lambda>r. []) sample_args sample_world
     = (1, sample_world\<lparr>trace := [Glob False, Print NoFiles]\<rparr>)"
proof -
  have t: "trace sample_world = []"
    by (simp add: sample_world_def)
  have n: "path_name ''notes.raw'' = ''notes.raw''"
    "path_name ''foo_4x4_rgb565_be.raw'' = ''foo_4x4_rgb565_be.raw''"
    by (simp_all add: path_name_def)
  have a: "level sample_args = 9" "force sample_args = False" "overwrite sample_args = False"
    "recursive sample_args = False"
    by (simp_all add: sample_args_def)
  have len: "length (replicate 31 (7 :: byte)) \<noteq> 4 * 4 * 2"
    by simp
  have 1: "main store_only (\<lambda>r. [''notes.raw'']) sample_args sample_world
     = (1, sample_world\<lparr>trace := [Glob False, Print (SkipName ''notes.raw''),
                                   Print (Done 0 1)]\<rparr>)"
    by (simp add: main_def a compress_one_no_match [OF size_from_name_notes] emit_def t n)
  have 2: "main store_only (\<lambda>r. [''foo_4x4_rgb565_be.raw'']) sample_args sample_world
     = (1, sample_world\<lparr>trace := [Glob False, ReadBytes ''foo_4x4_rgb565_be.raw'',
                                   Print (ErrorSize ''foo_4x4_rgb565_be.raw'' 31 32 4 4),
                                   Print (Done 0 1)]\<rparr>)"
    using compress_one_mismatch [OF size_from_name_foo _ len, of "emit (Glob False) sample_world"
        store_only 9 False]
    by (simp add: main_def a sample_world_foo emit_def t n)
  have 3: "main store_only (\<lambda>r. []) sample_args sample_world
     = (1, sample_world\<lparr>trace := [Glob False, Print NoFiles]\<rparr>)"
    by (simp add: main_def a emit_def t)
  from 1 2 3 show ?thesis by blast
qed

end
